theory Spec2Isabelle
  imports Complex_Main "HOL-Library.AList" "HOL-Library.Multiset"
begin

section \<open>Errors and values\<close>

text \<open>
  Every \<^verbatim>\<open>raise\<close> of the Python sources is a value of \<open>error\<close>.  The three
  \<^verbatim>\<open>ValueError\<close>s of \<^verbatim>\<open>_depgraph.py\<close> and \<^verbatim>\<open>_fit_spec.py\<close> are told apart by
  their message: \<open>InvalidDependency\<close> is "The field ... cannot depend on itself.",
  \<open>CircularDependency\<close> is any of "... creates a direct circular dependence ...",
  "There are circular dependencies in the field dependencies ..." and
  "The dependency graph contained closed loops.", and \<open>ShapeMismatch\<close> is the
  \<^verbatim>\<open>ValueError\<close> of the two array conversions.  The remaining constructors are the
  Python exception classes of the same name.
\<close>

datatype error =
    InvalidDependency
  | CircularDependency
  | ShapeMismatch
  | KeyError string
  | IndexError
  | AttributeError string
  | TypeError
  | AssertionError
  | NotImplementedError

text \<open>
  A Python \<^verbatim>\<open>float\<close>: a finite value is the real number it denotes, the two
  infinities and \<^verbatim>\<open>nan\<close> are kept apart because \<^verbatim>\<open>cmath.isfinite\<close> tests for them.
  Values are stored, copied and compared as they are; where the code computes with
  them (only in \<^verbatim>\<open>get_bounds_default\<close>) the exact result is rounded to a double by
  \<open>float_round\<close> below.
\<close>

datatype pyfloat = NegInf | Fin real | PosInf | NaN

fun isfinite :: "pyfloat \<Rightarrow> bool" where
  "isfinite (Fin _) = True"
| "isfinite _ = False"

text \<open>\<^verbatim>\<open>a <= b\<close> on floats; every comparison with \<^verbatim>\<open>nan\<close> is false.\<close>

fun pyfloat_le :: "pyfloat \<Rightarrow> pyfloat \<Rightarrow> bool" where
  "pyfloat_le NaN _ = False"
| "pyfloat_le _ NaN = False"
| "pyfloat_le NegInf _ = True"
| "pyfloat_le _ PosInf = True"
| "pyfloat_le (Fin a) (Fin b) = (a \<le> b)"
| "pyfloat_le _ _ = False"

text \<open>
  A Python \<^verbatim>\<open>dict\<close> keeps its keys in insertion order and an assignment to a key
  that is present replaces the value in place: an association list with
  \<open>AList.update\<close>, read with \<open>map_of\<close>.
\<close>

type_synonym ('k, 'v) dict = "('k \<times> 'v) list"

definition dict_get :: "('k, 'v) dict \<Rightarrow> 'k \<Rightarrow> ('k \<Rightarrow> error) \<Rightarrow> error + 'v" where
  "dict_get d k err = (case map_of d k of None \<Rightarrow> Inl (err k) | Some v \<Rightarrow> Inr v)"

section \<open>The dependency graph (\<^verbatim>\<open>_depgraph.py\<close>)\<close>

text \<open>
  \<^verbatim>\<open>_graph\<close> is an \<open>N \<times> N\<close> sparse integer matrix, \<open>0\<close> everywhere at first; it is
  modelled as a function on index pairs.  Only indices taken from \<^verbatim>\<open>_key_map\<close> or
  from \<^verbatim>\<open>range(N)\<close> are ever used, so no access is out of range.
\<close>

text \<open>The attribute \<^verbatim>\<open>fields\<close> is called \<open>field_names\<close>: \<open>fields\<close> is taken by the record package.\<close>

record DepGraph =
  N :: nat
  graph :: "nat \<times> nat \<Rightarrow> int"
  field_names :: "string list"
  key_map :: "string \<rightharpoonup> nat"
  num_deps :: nat

text \<open>\<^verbatim>\<open>{s: i for i, s in enumerate(fields)}\<close>: a later duplicate overwrites an earlier one.\<close>

definition DepGraph_init :: "string list \<Rightarrow> DepGraph" where
  "DepGraph_init fs =
     \<lparr> N = length fs,
       graph = (\<lambda>_. 0),
       field_names = fs,
       key_map = map_of (rev (zip fs [0..<length fs])),
       num_deps = 0 \<rparr>"

text \<open>
  \<^verbatim>\<open>add_dependency\<close> mutates the object and may raise; the model returns the outcome
  together with the graph as it is left behind.
\<close>

definition add_dependency :: "string \<Rightarrow> string \<Rightarrow> DepGraph \<Rightarrow> (error + bool) \<times> DepGraph" where
  "add_dependency which source dg =
     (if which = source then (Inl InvalidDependency, dg)
      else case key_map dg which of
        None \<Rightarrow> (Inl (KeyError which), dg)
      | Some wi \<Rightarrow>
          (case key_map dg source of
             None \<Rightarrow> (Inl (KeyError source), dg)
           | Some si \<Rightarrow>
               (let g = graph dg;
                    v = g (wi, si);
                    change = (v \<noteq> - 1)
                in if change then
                     if g (si, wi) \<noteq> 0 then (Inl CircularDependency, dg)
                     else (Inr change,
                           dg\<lparr> graph := g((wi, si) := - 1), num_deps := 1 + num_deps dg \<rparr>)
                   else (Inr change, dg))))"

definition dependency_count :: "DepGraph \<Rightarrow> nat" where
  "dependency_count dg = num_deps dg"

subsection \<open>Cycle detection\<close>

text \<open>
  \<^verbatim>\<open>has_closed_cycles\<close> calls \<^verbatim>\<open>scipy.sparse.csgraph.floyd_warshall\<close> on the matrix
  and reports whether it raised \<^verbatim>\<open>NegativeCycleError\<close>.  The library routine is
  modelled as the algorithm it runs: entries that are not stored (here: \<open>0\<close>) are
  non-edges at distance \<open>\<infinity>\<close> (\<open>None\<close>), the diagonal is set to \<open>0\<close>, the triple loop
  relaxes in place, and a negative diagonal entry afterwards is the error.
\<close>

type_synonym dist_matrix = "nat \<times> nat \<Rightarrow> int option"

definition csgraph_to_dense :: "(nat \<times> nat \<Rightarrow> int) \<Rightarrow> dist_matrix" where
  "csgraph_to_dense g =
     (\<lambda>(i, j). if i = j then Some 0 else if g (i, j) = 0 then None else Some (g (i, j)))"

definition fw_relax :: "nat \<Rightarrow> nat \<Rightarrow> int \<Rightarrow> nat \<Rightarrow> dist_matrix \<Rightarrow> dist_matrix" where
  "fw_relax k i d_ik j dm =
     (case dm (k, j) of
        None \<Rightarrow> dm
      | Some d_kj \<Rightarrow>
          (let d_ijk = d_ik + d_kj
           in if (case dm (i, j) of None \<Rightarrow> True | Some d_ij \<Rightarrow> d_ijk < d_ij)
              then dm((i, j) := Some d_ijk) else dm))"

definition fw_row :: "nat \<Rightarrow> nat \<Rightarrow> nat \<Rightarrow> dist_matrix \<Rightarrow> dist_matrix" where
  "fw_row n k i dm =
     (case dm (i, k) of
        None \<Rightarrow> dm
      | Some d_ik \<Rightarrow> fold (fw_relax k i d_ik) [0..<n] dm)"

definition floyd_warshall :: "nat \<Rightarrow> dist_matrix \<Rightarrow> dist_matrix" where
  "floyd_warshall n dm = fold (\<lambda>k. fold (fw_row n k) [0..<n]) [0..<n] dm"

definition has_closed_cycles :: "DepGraph \<Rightarrow> bool" where
  "has_closed_cycles dg =
     (let dm = floyd_warshall (N dg) (csgraph_to_dense (graph dg))
      in list_ex (\<lambda>i. case dm (i, i) of None \<Rightarrow> False | Some d \<Rightarrow> d < 0) [0..<N dg])"

subsection \<open>Initialisation order\<close>

text \<open>
  The \<^verbatim>\<open>while\<close> loop of \<^verbatim>\<open>get_init_order\<close>.  \<^verbatim>\<open>idx_in_tree\<close> is a Python set built by
  \<^verbatim>\<open>set(range(N))\<close> and only ever shrunk; it is iterated in ascending order, which
  the list keeps.  When the inner \<^verbatim>\<open>for\<close> finds no index with \<^verbatim>\<open>nnum_deps == 0\<close> it
  ends without \<^verbatim>\<open>break\<close> and the \<^verbatim>\<open>while\<close> repeats on an unchanged state: the loop
  does not return, which is the value \<open>None\<close> here.
\<close>

definition decrement_deps :: "(nat \<times> nat \<Rightarrow> int) \<Rightarrow> nat \<Rightarrow> nat list \<Rightarrow> (nat \<Rightarrow> int) \<Rightarrow> (nat \<Rightarrow> int)" where
  "decrement_deps g idx idx_in_tree nnum_deps =
     fold (\<lambda>i nn. if g (i, idx) = 0 then nn else nn(i := nn i + 1)) idx_in_tree nnum_deps"

partial_function (option) init_order_loop ::
  "(nat \<times> nat \<Rightarrow> int) \<Rightarrow> nat list \<Rightarrow> nat list \<Rightarrow> (nat \<Rightarrow> int) \<Rightarrow> nat list option" where
  "init_order_loop g idx_in_tree idx_resolved nnum_deps =
     (if length idx_in_tree > 0 then
        (case find (\<lambda>idx. nnum_deps idx = 0) idx_in_tree of
           None \<Rightarrow> init_order_loop g idx_in_tree idx_resolved nnum_deps
         | Some idx \<Rightarrow>
             init_order_loop g (removeAll idx idx_in_tree) (idx_resolved @ [idx])
               (decrement_deps g idx idx_in_tree nnum_deps))
      else Some idx_resolved)"

definition row_sums :: "DepGraph \<Rightarrow> nat \<Rightarrow> int" where
  "row_sums dg = (\<lambda>i. sum_list (map (\<lambda>j. graph dg (i, j)) [0..<N dg]))"

definition get_init_order :: "DepGraph \<Rightarrow> (error + string list) option" where
  "get_init_order dg =
     (if has_closed_cycles dg then Some (Inl CircularDependency)
      else map_option (\<lambda>idx_resolved. Inr (map (\<lambda>i. field_names dg ! i) idx_resolved))
             (init_order_loop (graph dg) [0..<N dg] [] (row_sums dg)))"

section \<open>Field descriptions (\<^verbatim>\<open>_fields.py\<close>)\<close>

text \<open>
  The metadata value of a dataclass field.  \<open>OtherField\<close> stands for an instance of
  \<^verbatim>\<open>FittingField\<close> that is none of the four known subclasses.
\<close>

datatype FittingField =
    BoundedField pyfloat pyfloat
  | ConstField pyfloat
  | SameAsField string
  | RegularField
  | OtherField

text \<open>
  What \<^verbatim>\<open>f.metadata\<close> holds under \<^verbatim>\<open>_METADATA_KEY\<close>: nothing, a \<^verbatim>\<open>FittingField\<close>, or
  an object of another type.
\<close>

datatype metadata = NoMetadata | Metadata FittingField | InvalidMetadata

text \<open>
  A \<^verbatim>\<open>dataclasses.Field\<close>, as far as the code reads it: \<^verbatim>\<open>name\<close>, \<^verbatim>\<open>init\<close>,
  \<^verbatim>\<open>default\<close> (\<open>None\<close> is \<^verbatim>\<open>dataclasses.MISSING\<close>) and \<^verbatim>\<open>metadata\<close>.  A dataclass
  is the list of its fields in declaration order (\<^verbatim>\<open>dataclasses.fields(t)\<close>).
\<close>

record dcfield =
  field_name :: string
  field_init :: bool
  field_default :: "pyfloat option"
  field_metadata :: metadata

type_synonym dataclass = "dcfield list"

definition get_special_fitting_field :: "dcfield \<Rightarrow> error + FittingField option" where
  "get_special_fitting_field f =
     (case field_metadata f of
        NoMetadata \<Rightarrow> Inr None
      | InvalidMetadata \<Rightarrow> Inl AssertionError
      | Metadata val \<Rightarrow> Inr (Some val))"

definition min_finite :: "pyfloat \<Rightarrow> pyfloat \<Rightarrow> bool" where
  "min_finite mn mx = isfinite mn"

definition max_finite :: "pyfloat \<Rightarrow> pyfloat \<Rightarrow> bool" where
  "max_finite mn mx = isfinite mx"

definition contains :: "pyfloat \<Rightarrow> pyfloat \<Rightarrow> pyfloat \<Rightarrow> bool" where
  "contains mn mx val =
     ((if min_finite mn mx then pyfloat_le mn val else True) \<and>
      (if max_finite mn mx then pyfloat_le val mx else True))"

text \<open>
  Float arithmetic.  The result of an operation on doubles is the exact result rounded
  to the nearest double, ties to the even significand (IEEE 754 binary64): 53
  significant bits, least exponent \<open>- 1022\<close>, and an infinity once the rounded magnitude
  reaches \<open>2\<^sup>1\<^sup>0\<^sup>2\<^sup>4\<close>.  \<open>float_half\<close> is the product \<^verbatim>\<open>0.5 * s\<close>, which leaves an infinity
  and \<^verbatim>\<open>nan\<close> as they are.
\<close>

definition round_half_even :: "real \<Rightarrow> int" where
  "round_half_even x =
     (let n = \<lfloor>x\<rfloor>; d = x - of_int n
      in if d < 1 / 2 then n else if 1 / 2 < d then n + 1 else if even n then n else n + 1)"

definition float_round :: "real \<Rightarrow> pyfloat" where
  "float_round x =
     (if x = 0 then Fin 0
      else let e = max \<lfloor>log 2 \<bar>x\<bar>\<rfloor> (- 1022);
               q = 2 powr (of_int e - 52);
               y = of_int (round_half_even (x / q)) * q
           in if 2 powr 1024 \<le> \<bar>y\<bar> then (if 0 < x then PosInf else NegInf) else Fin y)"

definition float_half :: "pyfloat \<Rightarrow> pyfloat" where
  "float_half s = (case s of Fin v \<Rightarrow> float_round (v / 2) | other \<Rightarrow> other)"

text \<open>
  \<^verbatim>\<open>get_bounds_default\<close>: \<^verbatim>\<open>0.5 * (min + max)\<close> when both bounds are finite (the sum is
  rounded, and may overflow, before it is halved), \<^verbatim>\<open>min + 1\<close> or \<^verbatim>\<open>max - 1\<close> when one is,
  \<^verbatim>\<open>0.0\<close> otherwise.
\<close>

definition get_bounds_default :: "pyfloat \<Rightarrow> pyfloat \<Rightarrow> pyfloat" where
  "get_bounds_default mn mx =
     (case (mn, mx) of
        (Fin a, Fin b) \<Rightarrow> float_half (float_round (a + b))
      | (Fin a, _) \<Rightarrow> float_round (a + 1)
      | (_, Fin b) \<Rightarrow> float_round (b - 1)
      | _ \<Rightarrow> Fin 0)"

definition resolve_default :: "pyfloat \<Rightarrow> pyfloat \<Rightarrow> pyfloat option \<Rightarrow> pyfloat" where
  "resolve_default mn mx fdefault =
     (case fdefault of
        Some d \<Rightarrow> if contains mn mx d then d else get_bounds_default mn mx
      | None \<Rightarrow> get_bounds_default mn mx)"

section \<open>The fit specification (\<^verbatim>\<open>_fit_spec.py\<close>)\<close>

datatype DependentResolver = DependentResolver (target: string) (name: string)

datatype DefaultResolver =
    UnsetDefaultResolver
  | FixedDefaultResolver pyfloat
  | Dependent DependentResolver

definition dependent_get :: "DependentResolver \<Rightarrow> (string, pyfloat) dict \<Rightarrow> error + pyfloat" where
  "dependent_get r others = dict_get others (name r) KeyError"

fun resolver_get :: "DefaultResolver \<Rightarrow> (string, pyfloat) dict \<Rightarrow> error + pyfloat" where
  "resolver_get UnsetDefaultResolver _ = Inr (Fin 0)"
| "resolver_get (FixedDefaultResolver v) _ = Inr v"
| "resolver_get (Dependent r) others = dependent_get r others"

text \<open>A numpy array of floats: zero-dimensional (a scalar) or one-dimensional.\<close>

datatype ndarray = Array0 pyfloat | Array1 "pyfloat list"

record FitSpecBase =
  special_param_count :: nat
  init_order :: "string list"
  fitting_param_count :: nat
  fitting_params :: "string list"
  fitting_fields :: "(string, FittingField option) dict"
  default_resolvers :: "DefaultResolver list"
  lower_bounds :: "pyfloat list option"
  upper_bounds :: "pyfloat list option"
  bounds :: "ndarray \<times> ndarray"
  dep_resolvers :: "DependentResolver list"

text \<open>
  \<^verbatim>\<open>_process_bounds\<close>: \<^verbatim>\<open>result[k] = v\<close> on a numpy array of length \<^verbatim>\<open>num_params\<close> raises
  \<^verbatim>\<open>IndexError\<close> when \<open>k\<close> is not below the length (\<open>k\<close> is never negative here).
\<close>

fun store_bounds :: "(nat, pyfloat) dict \<Rightarrow> pyfloat list \<Rightarrow> error + pyfloat list" where
  "store_bounds [] result = Inr result"
| "store_bounds ((k, v) # kvs) result =
     (if k < length result then store_bounds kvs (result[k := v]) else Inl IndexError)"

definition process_bounds :: "(nat, pyfloat) dict \<Rightarrow> nat \<Rightarrow> pyfloat \<Rightarrow> error + pyfloat list option" where
  "process_bounds set_bounds num_params dflt =
     (if length set_bounds = 0 then Inr None
      else case store_bounds set_bounds (replicate num_params dflt) of
             Inl e \<Rightarrow> Inl e
           | Inr result \<Rightarrow> Inr (Some result))"

text \<open>The local variables of \<^verbatim>\<open>generate\<close> that its loop over the fields updates.\<close>

record gen_state =
  depgraph :: DepGraph
  field_descriptors :: "(string, FittingField option) dict"
  set_lower_bounds :: "(nat, pyfloat) dict"
  set_upper_bounds :: "(nat, pyfloat) dict"
  default_resolvers_acc :: "DefaultResolver list"
  special_fields :: "string list"
  fitting_fields_acc :: "string list"
  dep_resolver_map :: "(string, DependentResolver) dict"

definition regular_default :: "dcfield \<Rightarrow> DefaultResolver" where
  "regular_default field =
     (case field_default field of
        None \<Rightarrow> UnsetDefaultResolver
      | Some fdefault \<Rightarrow> FixedDefaultResolver fdefault)"

text \<open>One pass of the body of \<^verbatim>\<open>for i, field in enumerate(init_fields)\<close>.\<close>

definition generate_step :: "nat \<Rightarrow> dcfield \<Rightarrow> gen_state \<Rightarrow> error + gen_state" where
  "generate_step i field st =
     (let fname = field_name field;
          st = st\<lparr> special_fields := special_fields st @ [fname] \<rparr>
      in case get_special_fitting_field field of
           Inl e \<Rightarrow> Inl e
         | Inr info \<Rightarrow>
             (let st = st\<lparr> field_descriptors := AList.update fname info (field_descriptors st) \<rparr>
              in case info of
                   None \<Rightarrow>
                     Inr (st\<lparr> fitting_fields_acc := fitting_fields_acc st @ [fname],
                              default_resolvers_acc := default_resolvers_acc st @ [regular_default field] \<rparr>)
                 | Some RegularField \<Rightarrow>
                     Inr (st\<lparr> fitting_fields_acc := fitting_fields_acc st @ [fname],
                              default_resolvers_acc := default_resolvers_acc st @ [regular_default field] \<rparr>)
                 | Some (BoundedField mn mx) \<Rightarrow>
                     (let st = (if min_finite mn mx
                                then st\<lparr> set_lower_bounds := AList.update i mn (set_lower_bounds st) \<rparr>
                                else st);
                          st = (if max_finite mn mx
                                then st\<lparr> set_upper_bounds := AList.update i mx (set_upper_bounds st) \<rparr>
                                else st);
                          df_val = resolve_default mn mx (field_default field)
                      in Inr (st\<lparr> fitting_fields_acc := fitting_fields_acc st @ [fname],
                                 default_resolvers_acc :=
                                   default_resolvers_acc st @ [FixedDefaultResolver df_val] \<rparr>))
                 | Some (ConstField v) \<Rightarrow>
                     Inr (st\<lparr> default_resolvers_acc :=
                                default_resolvers_acc st @ [FixedDefaultResolver v] \<rparr>)
                 | Some (SameAsField dep_name) \<Rightarrow>
                     (case add_dependency fname dep_name (depgraph st) of
                        (Inl e, _) \<Rightarrow> Inl e
                      | (Inr _, dg) \<Rightarrow>
                          (let def_res = DependentResolver fname dep_name
                           in Inr (st\<lparr> depgraph := dg,
                                      dep_resolver_map :=
                                        AList.update fname def_res (dep_resolver_map st),
                                      default_resolvers_acc :=
                                        default_resolvers_acc st @ [Dependent def_res] \<rparr>)))
                 | Some OtherField \<Rightarrow> Inl NotImplementedError))"

fun generate_loop :: "nat \<Rightarrow> dcfield list \<Rightarrow> gen_state \<Rightarrow> error + gen_state" where
  "generate_loop i [] st = Inr st"
| "generate_loop i (field # rest) st =
     (case generate_step i field st of
        Inl e \<Rightarrow> Inl e
      | Inr st' \<Rightarrow> generate_loop (Suc i) rest st')"

text \<open>\<^verbatim>\<open>get_dep_resolvers\<close>: the resolvers of those fields that have one, in the given order.\<close>

definition get_dep_resolvers ::
  "(string, DependentResolver) dict \<Rightarrow> string list \<Rightarrow> DependentResolver list" where
  "get_dep_resolvers m ordered_fields = List.map_filter (map_of m) ordered_fields"

text \<open>
  The part of \<^verbatim>\<open>generate\<close> that fixes \<^verbatim>\<open>init_order\<close> and \<^verbatim>\<open>dep_resolvers_seq\<close>.  It does
  not return when \<^verbatim>\<open>get_init_order\<close> does not (\<open>None\<close>).
\<close>

definition order_fields :: "gen_state \<Rightarrow> (error + string list \<times> DependentResolver list) option" where
  "order_fields st =
     (let num_special_params = length (special_fields st)
      in if dependency_count (depgraph st) > 0 then
           if has_closed_cycles (depgraph st) then Some (Inl CircularDependency)
           else case get_init_order (depgraph st) of
                  None \<Rightarrow> None
                | Some (Inl e) \<Rightarrow> Some (Inl e)
                | Some (Inr order) \<Rightarrow>
                    (let init_order' = filter (\<lambda>f. f \<in> set (special_fields st)) order
                     in if length init_order' \<noteq> num_special_params then Some (Inl AssertionError)
                        else Some (Inr (init_order',
                                        get_dep_resolvers (dep_resolver_map st) init_order')))
         else Some (Inr (special_fields st, [])))"

definition initial_gen_state :: "dataclass \<Rightarrow> gen_state" where
  "initial_gen_state t =
     \<lparr> depgraph = DepGraph_init (map field_name t),
       field_descriptors = [],
       set_lower_bounds = [],
       set_upper_bounds = [],
       default_resolvers_acc = [],
       special_fields = [],
       fitting_fields_acc = [],
       dep_resolver_map = [] \<rparr>"

definition generate :: "dataclass \<Rightarrow> (error + FitSpecBase) option" where
  "generate t =
     (case generate_loop 0 (filter field_init t) (initial_gen_state t) of
        Inl e \<Rightarrow> Some (Inl e)
      | Inr st \<Rightarrow>
          (let num_special_params = length (special_fields st);
               t_def_res = default_resolvers_acc st
           in if length t_def_res \<noteq> num_special_params then Some (Inl AssertionError)
              else case order_fields st of
                     None \<Rightarrow> None
                   | Some (Inl e) \<Rightarrow> Some (Inl e)
                   | Some (Inr (init_order', dep_resolvers_seq)) \<Rightarrow>
                       (let num_fitting_params = length (fitting_fields_acc st)
                        in case process_bounds (set_lower_bounds st) num_fitting_params NegInf of
                             Inl e \<Rightarrow> Some (Inl e)
                           | Inr lower_bounds' \<Rightarrow>
                               (case process_bounds (set_upper_bounds st) num_fitting_params PosInf of
                                  Inl e \<Rightarrow> Some (Inl e)
                                | Inr upper_bounds' \<Rightarrow>
                                    (let lb = (case lower_bounds' of
                                                 None \<Rightarrow> Array0 NegInf | Some a \<Rightarrow> Array1 a);
                                         ub = (case upper_bounds' of
                                                 None \<Rightarrow> Array0 PosInf | Some a \<Rightarrow> Array1 a)
                                     in Some (Inr
                                          \<lparr> special_param_count = num_special_params,
                                            init_order = init_order',
                                            fitting_param_count = num_fitting_params,
                                            fitting_params = fitting_fields_acc st,
                                            fitting_fields = field_descriptors st,
                                            default_resolvers = t_def_res,
                                            lower_bounds = lower_bounds',
                                            upper_bounds = upper_bounds',
                                            bounds = (lb, ub),
                                            dep_resolvers = dep_resolvers_seq \<rparr>))))))"

subsection \<open>Conversions between instances and arrays\<close>

text \<open>
  An instance of a dataclass is the map from attribute names to values.  The
  constructor call \<^verbatim>\<open>clss(**kwargs)\<close> is the \<^verbatim>\<open>__init__\<close> that \<^verbatim>\<open>dataclasses\<close>
  generates: a keyword that is no constructor parameter and a parameter without
  default that is not passed are a \<^verbatim>\<open>TypeError\<close>; a parameter that is not passed
  takes its default; a field with \<^verbatim>\<open>init=False\<close> is set to its default if it has one.
\<close>

type_synonym dc_instance = "string \<rightharpoonup> pyfloat"

definition dataclass_init :: "dataclass \<Rightarrow> (string, pyfloat) dict \<Rightarrow> error + dc_instance" where
  "dataclass_init clss kwargs =
     (if list_ex (\<lambda>k. k \<notin> set (map field_name (filter field_init clss))) (map fst kwargs)
      then Inl TypeError
      else if list_ex (\<lambda>f. field_init f \<and> map_of kwargs (field_name f) = None
                               \<and> field_default f = None) clss
      then Inl TypeError
      else Inr (\<lambda>n. case find (\<lambda>f. field_name f = n) clss of
                        None \<Rightarrow> None
                      | Some f \<Rightarrow>
                          if field_init f
                          then (case map_of kwargs n of Some v \<Rightarrow> Some v | None \<Rightarrow> field_default f)
                          else field_default f))"

record FitSpec = FitSpecBase +
  clss :: dataclass

text \<open>\<^verbatim>\<open>_StoredFitSpec.pin\<close>: the same fields, with the class added.\<close>

definition pin :: "FitSpecBase \<Rightarrow> dataclass \<Rightarrow> FitSpec" where
  "pin fs cls = FitSpecBase.extend fs (FitSpec.fields cls)"

text \<open>\<^verbatim>\<open>get_fit_spec\<close> without its cache, which stores what \<^verbatim>\<open>generate\<close> returned.\<close>

definition get_fit_spec :: "dataclass \<Rightarrow> (error + FitSpec) option" where
  "get_fit_spec t =
     (case generate t of
        None \<Rightarrow> None
      | Some (Inl e) \<Rightarrow> Some (Inl e)
      | Some (Inr fs) \<Rightarrow> Some (Inr (pin fs t)))"

fun resolve_defaults ::
  "(string \<times> DefaultResolver) list \<Rightarrow> (string, pyfloat) dict \<Rightarrow> error + (string, pyfloat) dict" where
  "resolve_defaults [] params = Inr params"
| "resolve_defaults ((fname, resolver) # rest) params =
     (case resolver_get resolver params of
        Inl e \<Rightarrow> Inl e
      | Inr v \<Rightarrow> resolve_defaults rest (AList.update fname v params))"

definition create_default_fit_instance :: "FitSpec \<Rightarrow> error + dc_instance" where
  "create_default_fit_instance spec =
     (case resolve_defaults (zip (init_order spec) (default_resolvers spec)) [] of
        Inl e \<Rightarrow> Inl e
      | Inr params \<Rightarrow> dataclass_init (clss spec) params)"

text \<open>
  \<^verbatim>\<open>instance_to_array\<close> writes into \<^verbatim>\<open>out\<close>; the model returns the array as written.
\<close>

fun write_fields :: "nat \<Rightarrow> string list \<Rightarrow> dc_instance \<Rightarrow> pyfloat list \<Rightarrow> error + pyfloat list" where
  "write_fields i [] inst out = Inr out"
| "write_fields i (field # rest) inst out =
     (case inst field of
        None \<Rightarrow> Inl (AttributeError field)
      | Some v \<Rightarrow>
          if i < length out then write_fields (Suc i) rest inst (out[i := v])
          else Inl IndexError)"

definition instance_to_array :: "FitSpec \<Rightarrow> dc_instance \<Rightarrow> pyfloat list \<Rightarrow> error + pyfloat list" where
  "instance_to_array spec inst out =
     (let num_params = fitting_param_count spec
      in if length out \<noteq> num_params then Inl ShapeMismatch
         else write_fields 0 (fitting_params spec) inst out)"

fun read_fields ::
  "nat \<Rightarrow> string list \<Rightarrow> pyfloat list \<Rightarrow> (string, pyfloat) dict \<Rightarrow> error + (string, pyfloat) dict" where
  "read_fields i [] array kwargs = Inr kwargs"
| "read_fields i (field # rest) array kwargs =
     (if i < length array then read_fields (Suc i) rest array (AList.update field (array ! i) kwargs)
      else Inl IndexError)"

fun resolve_dependent ::
  "DependentResolver list \<Rightarrow> (string, pyfloat) dict \<Rightarrow> error + (string, pyfloat) dict" where
  "resolve_dependent [] kwargs = Inr kwargs"
| "resolve_dependent (resolver # rest) kwargs =
     (case dependent_get resolver kwargs of
        Inl e \<Rightarrow> Inl e
      | Inr v \<Rightarrow> resolve_dependent rest (AList.update (target resolver) v kwargs))"

definition array_to_instance :: "FitSpec \<Rightarrow> pyfloat list \<Rightarrow> error + dc_instance" where
  "array_to_instance spec array =
     (let num_params = fitting_param_count spec;
          array_len = length array
      in if array_len \<noteq> num_params then Inl ShapeMismatch
         else case read_fields 0 (fitting_params spec) array [] of
                Inl e \<Rightarrow> Inl e
              | Inr kwargs \<Rightarrow>
                  (case resolve_dependent (dep_resolvers spec) kwargs of
                     Inl e \<Rightarrow> Inl e
                   | Inr kwargs \<Rightarrow> dataclass_init (clss spec) kwargs))"

section \<open>Vocabulary of the properties\<close>

text \<open>
  The states a \<^verbatim>\<open>DepGraph\<close> object can be in: \<^verbatim>\<open>N\<close> and \<^verbatim>\<open>_key_map\<close> are what
  \<^verbatim>\<open>__init__\<close> computed from the field names, every entry of the matrix is \<open>0\<close> or
  \<open>- 1\<close>, a non-zero entry lies off the diagonal inside the matrix and its mirror
  entry is \<open>0\<close>, and the counter is zero exactly when there is no edge.  The
  constructor establishes this and \<^verbatim>\<open>add_dependency\<close> keeps it (lemmas
  \<open>graph_inv_init\<close> and \<open>graph_inv_add_dependency\<close>).
\<close>

definition graph_inv :: "DepGraph \<Rightarrow> bool" where
  "graph_inv dg \<longleftrightarrow>
     N dg = length (field_names dg) \<and>
     key_map dg = map_of (rev (zip (field_names dg) [0..<N dg])) \<and>
     (\<forall>i j. graph dg (i, j) \<noteq> 0 \<longrightarrow>
        graph dg (i, j) = - 1 \<and> i < N dg \<and> j < N dg \<and> i \<noteq> j \<and> graph dg (j, i) = 0) \<and>
     (num_deps dg = 0 \<longleftrightarrow> (\<forall>i j. graph dg (i, j) = 0))"

text \<open>The edge "\<open>a\<close> depends on \<open>b\<close>" is recorded in the graph.\<close>

definition edge_present :: "DepGraph \<Rightarrow> string \<Rightarrow> string \<Rightarrow> bool" where
  "edge_present dg a b =
     (case (key_map dg a, key_map dg b) of
        (Some ai, Some bi) \<Rightarrow> graph dg (ai, bi) \<noteq> 0
      | _ \<Rightarrow> False)"

text \<open>Two small graphs over the fields \<open>a\<close> and \<open>b\<close>, each with one edge.\<close>

definition dg_ab :: DepGraph where
  "dg_ab = snd (add_dependency ''a'' ''b'' (DepGraph_init [''a'', ''b'']))"

definition dg_ba :: DepGraph where
  "dg_ba = snd (add_dependency ''b'' ''a'' (DepGraph_init [''a'', ''b'']))"

subsection \<open>Edges, walks and cycles\<close>

text \<open>
  The edge set of the graph: \<open>(i, j)\<close> is an edge when field \<open>i\<close> depends on field \<open>j\<close>.
  \<open>via E S i j\<close> is a walk of at least one edge from \<open>i\<close> to \<open>j\<close> whose inner nodes
  all lie in \<open>S\<close>.  The remaining three predicates describe the distance matrix
  during the Floyd-Warshall run and are used in the proofs only.
\<close>

definition edges :: "DepGraph \<Rightarrow> (nat \<times> nat) set" where
  "edges dg = {(i, j). graph dg (i, j) \<noteq> 0}"

inductive via :: "(nat \<times> nat) set \<Rightarrow> nat set \<Rightarrow> nat \<Rightarrow> nat \<Rightarrow> bool"
  for E :: "(nat \<times> nat) set" and S :: "nat set" where
  direct: "(i, j) \<in> E \<Longrightarrow> via E S i j"
| through: "(i, m) \<in> E \<Longrightarrow> m \<in> S \<Longrightarrow> via E S m j \<Longrightarrow> via E S i j"

definition negative :: "dist_matrix \<Rightarrow> nat \<Rightarrow> nat \<Rightarrow> bool" where
  "negative dm i j \<longleftrightarrow> (\<exists>x<0. dm (i, j) = Some x)"

definition justified :: "(nat \<times> nat) set \<Rightarrow> nat \<Rightarrow> nat \<Rightarrow> int \<Rightarrow> bool" where
  "justified E i j x \<longleftrightarrow> x \<le> 0 \<and> (x = 0 \<longrightarrow> i = j) \<and> (x < 0 \<longrightarrow> (i, j) \<in> E\<^sup>+)"

definition sound :: "(nat \<times> nat) set \<Rightarrow> dist_matrix \<Rightarrow> bool" where
  "sound E dm \<longleftrightarrow> (\<forall>i j x. dm (i, j) = Some x \<longrightarrow> justified E i j x)"

text \<open>
  A directed cycle is given by the list of its nodes \<open>v\<^sub>0, \<dots>, v\<^sub>m\<^sub>-\<^sub>1\<close>: each node has
  an edge to the next one and the last an edge back to the first; its length is the
  number \<open>m\<close> of its edges.
\<close>

fun is_path :: "(nat \<times> nat \<Rightarrow> int) \<Rightarrow> nat list \<Rightarrow> bool" where
  "is_path g [] = True"
| "is_path g [v] = True"
| "is_path g (u # v # vs) = (g (u, v) \<noteq> 0 \<and> is_path g (v # vs))"

definition directed_cycle :: "DepGraph \<Rightarrow> nat list \<Rightarrow> bool" where
  "directed_cycle dg vs \<longleftrightarrow> 2 \<le> length vs \<and> is_path (graph dg) (vs @ [hd vs])"

subsection \<open>The order the specification describes\<close>

text \<open>
  The specification's wording of the initialisation order: repeatedly select the first
  remaining node, in declaration order, that depends on no other remaining node, and
  remove it.  \<open>None\<close> when no remaining node can be selected.
\<close>

function spec_init_order :: "(nat \<times> nat \<Rightarrow> int) \<Rightarrow> nat list \<Rightarrow> nat list option" where
  "spec_init_order g remaining =
     (if remaining = [] then Some []
      else case find (\<lambda>i. list_all (\<lambda>j. j = i \<or> g (i, j) = 0) remaining) remaining of
             None \<Rightarrow> None
           | Some i \<Rightarrow> map_option ((#) i) (spec_init_order g (removeAll i remaining)))"
  by pat_completeness auto
termination
proof (relation "measure (\<lambda>(g, remaining). length remaining)")
  show "wf (measure (\<lambda>(g, remaining). length remaining))" by simp
next
  fix g :: "nat \<times> nat \<Rightarrow> int" and remaining :: "nat list" and i
  assume "find (\<lambda>i. list_all (\<lambda>j. j = i \<or> g (i, j) = 0) remaining) remaining = Some i"
  then have "i \<in> set remaining" by (auto simp: find_Some_iff)
  then have "length (removeAll i remaining) < length remaining"
    by (rule length_removeAll_less)
  then show "((g, removeAll i remaining), (g, remaining)) \<in> measure (\<lambda>(g, remaining). length remaining)"
    by simp
qed

declare spec_init_order.simps [simp del]

definition free_node :: "(nat \<times> nat \<Rightarrow> int) \<Rightarrow> nat list \<Rightarrow> nat \<Rightarrow> bool" where
  "free_node g remaining i = list_all (\<lambda>j. j = i \<or> g (i, j) = 0) remaining"

text \<open>
  The loop invariant of \<^verbatim>\<open>get_init_order\<close>: for every index still in the tree,
  \<^verbatim>\<open>nnum_deps\<close> is minus the number of indices in the tree it depends on.
\<close>

definition counts_ok :: "(nat \<times> nat \<Rightarrow> int) \<Rightarrow> nat list \<Rightarrow> (nat \<Rightarrow> int) \<Rightarrow> bool" where
  "counts_ok g tree nn \<longleftrightarrow> (\<forall>i \<in> set tree. nn i = - int (card {j \<in> set tree. g (i, j) \<noteq> 0}))"

text \<open>
  A sequence of \<^verbatim>\<open>add_dependency\<close> calls on one object, whatever each call returns; and
  three fields that depend on each other in a circle.
\<close>

definition add_all :: "(string \<times> string) list \<Rightarrow> DepGraph \<Rightarrow> DepGraph" where
  "add_all deps dg = fold (\<lambda>(a, b) dg. snd (add_dependency a b dg)) deps dg"

definition dg_abc :: DepGraph where
  "dg_abc = add_all [(''a'', ''b''), (''b'', ''c''), (''c'', ''a'')] (DepGraph_init [''a'', ''b'', ''c''])"

text \<open>The example of the tests: \<open>a\<close> on \<open>b\<close>, \<open>b\<close> on \<open>d\<close>, \<open>c\<close> on \<open>a\<close> and on \<open>d\<close>.\<close>

definition dg_small :: DepGraph where
  "dg_small = add_all [(''a'', ''b''), (''b'', ''d''), (''c'', ''a''), (''c'', ''d'')]
                (DepGraph_init [''a'', ''b'', ''c'', ''d''])"

subsection \<open>Kinds of fields and what a dataclass declares\<close>

text \<open>
  The branch of the loop of \<^verbatim>\<open>generate\<close> a field takes: a fitting field (no metadata,
  regular or bounded), a constant, or a same-as field; \<open>resolver_of\<close> is the default
  resolver that branch appends.  \<open>declares_same_as t a b\<close>: the dataclass has a
  constructor field named \<open>a\<close> that is declared the same as \<open>b\<close>.
\<close>

definition is_fitting :: "dcfield \<Rightarrow> bool" where
  "is_fitting f =
     (case field_metadata f of
        NoMetadata \<Rightarrow> True
      | Metadata RegularField \<Rightarrow> True
      | Metadata (BoundedField _ _) \<Rightarrow> True
      | _ \<Rightarrow> False)"

definition is_const :: "dcfield \<Rightarrow> bool" where
  "is_const f = (case field_metadata f of Metadata (ConstField _) \<Rightarrow> True | _ \<Rightarrow> False)"

definition is_same_as :: "dcfield \<Rightarrow> bool" where
  "is_same_as f = (case field_metadata f of Metadata (SameAsField _) \<Rightarrow> True | _ \<Rightarrow> False)"

definition resolver_of :: "dcfield \<Rightarrow> DefaultResolver" where
  "resolver_of f =
     (case field_metadata f of
        Metadata (BoundedField mn mx) \<Rightarrow> FixedDefaultResolver (resolve_default mn mx (field_default f))
      | Metadata (ConstField v) \<Rightarrow> FixedDefaultResolver v
      | Metadata (SameAsField tgt) \<Rightarrow> Dependent (DependentResolver (field_name f) tgt)
      | _ \<Rightarrow> regular_default f)"

definition declares_same_as :: "dataclass \<Rightarrow> string \<Rightarrow> string \<Rightarrow> bool" where
  "declares_same_as t a b \<longleftrightarrow>
     list_ex (\<lambda>f. field_init f \<and> field_name f = a \<and> field_metadata f = Metadata (SameAsField b)) t"

text \<open>
  Fields as the declaration functions of \<^verbatim>\<open>_fields.py\<close> create them (\<^verbatim>\<open>regular\<close>,
  \<^verbatim>\<open>bounded\<close>, \<^verbatim>\<open>const\<close>, \<^verbatim>\<open>same_as\<close>), and a field without metadata.  \<^verbatim>\<open>const(value)\<close>
  also makes the value the default of the field.
\<close>

definition plain_field :: "string \<Rightarrow> pyfloat option \<Rightarrow> dcfield" where
  "plain_field n d =
     \<lparr> field_name = n, field_init = True, field_default = d, field_metadata = NoMetadata \<rparr>"

definition regular_field :: "string \<Rightarrow> pyfloat option \<Rightarrow> dcfield" where
  "regular_field n d =
     \<lparr> field_name = n, field_init = True, field_default = d,
       field_metadata = Metadata RegularField \<rparr>"

definition bounded_field :: "string \<Rightarrow> pyfloat \<Rightarrow> pyfloat \<Rightarrow> pyfloat option \<Rightarrow> dcfield" where
  "bounded_field n mn mx d =
     \<lparr> field_name = n, field_init = True, field_default = d,
       field_metadata = Metadata (BoundedField mn mx) \<rparr>"

definition const_field :: "string \<Rightarrow> pyfloat \<Rightarrow> dcfield" where
  "const_field n v =
     \<lparr> field_name = n, field_init = True, field_default = Some v,
       field_metadata = Metadata (ConstField v) \<rparr>"

definition same_as_field :: "string \<Rightarrow> string \<Rightarrow> pyfloat option \<Rightarrow> dcfield" where
  "same_as_field n tgt d =
     \<lparr> field_name = n, field_init = True, field_default = d,
       field_metadata = Metadata (SameAsField tgt) \<rparr>"

text \<open>
  Example dataclasses with the specification \<^verbatim>\<open>generate\<close> returns for them: \<open>a\<close> declared
  the same as the plain field \<open>b\<close> after it; \<open>b\<close> declared the same as \<open>a\<close>, which has
  \<^verbatim>\<open>init=False\<close>; and a constant \<open>c\<close> ahead of a field \<open>x\<close> bounded by 0 and 1, without and
  with a regular field \<open>y\<close> after it.
\<close>

definition dc_ab :: dataclass where
  "dc_ab = [same_as_field ''a'' ''b'' None, plain_field ''b'' None]"

definition spec_ab :: FitSpecBase where
  "spec_ab =
     \<lparr> special_param_count = 2,
       init_order = [''b'', ''a''],
       fitting_param_count = 1,
       fitting_params = [''b''],
       fitting_fields = [(''a'', Some (SameAsField ''b'')), (''b'', None)],
       default_resolvers = [Dependent (DependentResolver ''a'' ''b''), UnsetDefaultResolver],
       lower_bounds = None,
       upper_bounds = None,
       bounds = (Array0 NegInf, Array0 PosInf),
       dep_resolvers = [DependentResolver ''a'' ''b''] \<rparr>"

definition dc_noninit :: dataclass where
  "dc_noninit = [(plain_field ''a'' (Some (Fin 1)))\<lparr> field_init := False \<rparr>,
                 same_as_field ''b'' ''a'' None]"

definition spec_noninit :: FitSpecBase where
  "spec_noninit =
     \<lparr> special_param_count = 1,
       init_order = [''b''],
       fitting_param_count = 0,
       fitting_params = [],
       fitting_fields = [(''b'', Some (SameAsField ''a''))],
       default_resolvers = [Dependent (DependentResolver ''b'' ''a'')],
       lower_bounds = None,
       upper_bounds = None,
       bounds = (Array0 NegInf, Array0 PosInf),
       dep_resolvers = [DependentResolver ''b'' ''a''] \<rparr>"

definition dc_cx :: dataclass where
  "dc_cx = [const_field ''c'' (Fin 7), bounded_field ''x'' (Fin 0) (Fin 1) (Some (Fin (1 / 2)))]"

definition dc_cxy :: dataclass where
  "dc_cxy = [const_field ''c'' (Fin 7), bounded_field ''x'' (Fin 0) (Fin 1) (Some (Fin (1 / 2))),
             regular_field ''y'' (Some (Fin 1))]"

definition spec_cxy :: FitSpecBase where
  "spec_cxy =
     \<lparr> special_param_count = 3,
       init_order = [''c'', ''x'', ''y''],
       fitting_param_count = 2,
       fitting_params = [''x'', ''y''],
       fitting_fields = [(''c'', Some (ConstField (Fin 7))),
                         (''x'', Some (BoundedField (Fin 0) (Fin 1))),
                         (''y'', Some RegularField)],
       default_resolvers = [FixedDefaultResolver (Fin 7), FixedDefaultResolver (Fin (1 / 2)),
                            FixedDefaultResolver (Fin 1)],
       lower_bounds = Some [NegInf, Fin 0],
       upper_bounds = Some [PosInf, Fin 1],
       bounds = (Array1 [NegInf, Fin 0], Array1 [PosInf, Fin 1]),
       dep_resolvers = [] \<rparr>"

text \<open>
  A chain of same-as declarations among the constructor fields: each name is declared
  the same as the next one.  A declared cycle of length \<open>m \<ge> 2\<close> is a chain through \<open>m\<close>
  different fields that returns to its first field.
\<close>

fun same_as_chain :: "dataclass \<Rightarrow> string list \<Rightarrow> bool" where
  "same_as_chain t [] = True"
| "same_as_chain t [v] = True"
| "same_as_chain t (u # v # vs) = (declares_same_as t u v \<and> same_as_chain t (v # vs))"

definition declared_cycle :: "dataclass \<Rightarrow> string list \<Rightarrow> bool" where
  "declared_cycle t ns \<longleftrightarrow> 2 \<le> length ns \<and> distinct ns \<and> same_as_chain t (ns @ [hd ns])"

text \<open>
  Every constructor field has one of the four kinds (or no metadata), and every
  same-as field names a declared field other than itself.
\<close>

definition well_declared :: "dataclass \<Rightarrow> bool" where
  "well_declared t =
     list_all (\<lambda>f. case field_metadata f of
                      Metadata (SameAsField tgt) \<Rightarrow>
                        tgt \<in> set (map field_name t) \<and> tgt \<noteq> field_name f
                    | Metadata OtherField \<Rightarrow> False
                    | InvalidMetadata \<Rightarrow> False
                    | _ \<Rightarrow> True)
       (filter field_init t)"

text \<open>
  Three fields declared the same as each other in a circle; and two such fields behind
  a field declared the same as itself.
\<close>

definition dc_abc :: dataclass where
  "dc_abc = [same_as_field ''a'' ''b'' None, same_as_field ''b'' ''c'' None,
             same_as_field ''c'' ''a'' None]"

definition dc_self :: dataclass where
  "dc_self = [same_as_field ''x'' ''x'' None, same_as_field ''a'' ''b'' None,
              same_as_field ''b'' ''a'' None]"

text \<open>The dataclass has a constructor field named \<open>c\<close> that is a constant.\<close>

definition declares_const :: "dataclass \<Rightarrow> string \<Rightarrow> bool" where
  "declares_const t c \<longleftrightarrow> list_ex (\<lambda>f. field_init f \<and> field_name f = c \<and> is_const f) t"

text \<open>
  A dataclass with a field \<open>s\<close> declared the same as the constant \<open>c\<close>, and two more
  fields declared the same as each other.
\<close>

definition dc_const_cycle :: dataclass where
  "dc_const_cycle = [const_field ''c'' (Fin 7), same_as_field ''s'' ''c'' (Some (Fin 7)),
                     same_as_field ''a'' ''b'' (Some (Fin 0)),
                     same_as_field ''b'' ''a'' (Some (Fin 0))]"

text \<open>
  A dataclass with a fitting field \<open>x\<close>, a constant \<open>a\<close> and a field \<open>b\<close> declared the same
  as \<open>a\<close>; its dependency graph, its specification and the instance with \<open>x = 1\<close>.
\<close>

definition dc_xab :: dataclass where
  "dc_xab = [plain_field ''x'' None, const_field ''a'' (Fin 7),
             same_as_field ''b'' ''a'' (Some (Fin 7))]"

definition dg_xab :: DepGraph where
  "dg_xab = snd (add_dependency ''b'' ''a'' (DepGraph_init [''x'', ''a'', ''b'']))"

definition spec_xab :: FitSpecBase where
  "spec_xab =
     \<lparr> special_param_count = 3,
       init_order = [''x'', ''a'', ''b''],
       fitting_param_count = 1,
       fitting_params = [''x''],
       fitting_fields = [(''x'', None), (''a'', Some (ConstField (Fin 7))),
                         (''b'', Some (SameAsField ''a''))],
       default_resolvers = [UnsetDefaultResolver, FixedDefaultResolver (Fin 7),
                            Dependent (DependentResolver ''b'' ''a'')],
       lower_bounds = None,
       upper_bounds = None,
       bounds = (Array0 NegInf, Array0 PosInf),
       dep_resolvers = [DependentResolver ''b'' ''a''] \<rparr>"

definition inst_xab :: dc_instance where
  "inst_xab = [''x'' \<mapsto> Fin 1, ''a'' \<mapsto> Fin 7, ''b'' \<mapsto> Fin 7]"

section \<open>Float rounding\<close>

lemma round_half_even_ge: "\<lfloor>x\<rfloor> \<le> round_half_even x"
  by (simp add: round_half_even_def Let_def)

lemma float_round_overflow:
  assumes "2 powr 1024 \<le> (x::real)"
  shows "float_round x = PosInf"
proof -
  have pos: "0 < x" using assms by (smt (verit) powr_gt_zero)
  define e where "e = max \<lfloor>log 2 \<bar>x\<bar>\<rfloor> (- 1022)"
  define q :: real where "q = 2 powr (of_int e - 52)"
  have l: "1024 \<le> log 2 x" using assms pos by (simp add: le_log_iff)
  then have e1: "1024 \<le> e" unfolding e_def using pos by (simp add: le_floor_iff)
  have "of_int \<lfloor>log 2 x\<rfloor> \<le> log 2 x" by simp
  moreover have "e = \<lfloor>log 2 x\<rfloor>" unfolding e_def using pos l by (simp add: max_def le_floor_iff)
  ultimately have "of_int e \<le> log 2 x" by simp
  then have xe: "2 powr (of_int e :: real) \<le> x" using pos by (simp add: le_log_iff)
  have qpos: "0 < q" by (simp add: q_def)
  have "2 powr (of_int e :: real) = 2 powr (52 + (of_int e - 52))" by simp
  also have "\<dots> = 2 powr 52 * 2 powr (of_int e - 52)" by (rule powr_add)
  finally have A: "2 powr (of_int e :: real) = 2 ^ 52 * q" unfolding q_def by simp
  have "2 ^ 52 * q \<le> x" using xe A by simp
  then have "(2::real) ^ 52 \<le> x / q" using qpos by (simp add: pos_le_divide_eq)
  then have "(2::int) ^ 52 \<le> \<lfloor>x / q\<rfloor>" by (simp add: le_floor_iff)
  then have "(2::int) ^ 52 \<le> round_half_even (x / q)" using round_half_even_ge[of "x / q"] by linarith
  then have "real_of_int (2 ^ 52) \<le> of_int (round_half_even (x / q))" by (simp only: of_int_le_iff)
  then have "(2::real) ^ 52 \<le> of_int (round_half_even (x / q))" by simp
  then have "2 ^ 52 * q \<le> of_int (round_half_even (x / q)) * q"
    using qpos by (simp only: mult_le_cancel_right_pos)
  moreover have "(2::real) powr 1024 \<le> 2 powr (of_int e :: real)"
    by (rule powr_mono) (use e1 in simp_all)
  ultimately have big: "2 powr 1024 \<le> of_int (round_half_even (x / q)) * q" using A by linarith
  then have "2 powr 1024 \<le> \<bar>of_int (round_half_even (x / q)) * q\<bar>" by linarith
  then show ?thesis
    using pos unfolding float_round_def Let_def e_def[symmetric] q_def[symmetric]
    by (simp add: e_def q_def)
qed

text \<open>The sum of two large finite bounds overflows, and the default is infinite.\<close>

lemma get_bounds_default_overflow: "get_bounds_default (Fin (10 ^ 308)) (Fin (17 * 10 ^ 307)) = PosInf"
proof -
  have "(2::real) powr 1024 \<le> 10 ^ 308 + 17 * 10 ^ 307" by simp
  then show ?thesis
    by (simp only: get_bounds_default_def prod.case pyfloat.case float_round_overflow float_half_def)
qed


text \<open>Above \<open>2\<^sup>5\<^sup>3\<close> adding 1 to a finite bound can round back to the bound.\<close>

lemma get_bounds_default_rounds: "get_bounds_default (Fin (10 ^ 16)) PosInf = Fin (10 ^ 16)"
proof -
  have a: "\<bar>10 ^ 16 + 1 :: real\<bar> = 10 ^ 16 + 1" by simp
  have e: "\<lfloor>log 2 (10 ^ 16 + 1 :: real)\<rfloor> = 53"
    by (simp add: floor_eq_iff le_log_iff log_less_iff)
  have q: "(2::real) powr (of_int (max 53 (- 1022)) - 52) = 2" by simp
  have f: "\<lfloor>(10 ^ 16 + 1 :: real) / 2\<rfloor> = 5 * 10 ^ 15"
    by (simp add: floor_eq_iff)
  have r: "round_half_even ((10 ^ 16 + 1) / 2) = 5 * 10 ^ 15"
    unfolding round_half_even_def f Let_def by simp
  have "float_round (10 ^ 16 + 1) = Fin (10 ^ 16)"
    unfolding float_round_def a e q r Let_def by simp
  then show ?thesis by (simp add: get_bounds_default_def)
qed

section \<open>The dependency graph: invariant and \<^verbatim>\<open>add_dependency\<close>\<close>

lemma enum_map_Some:
  "map_of (rev (zip fs [0..<length fs])) s = Some i \<Longrightarrow> i < length fs \<and> fs ! i = s"
  by (auto dest!: map_of_SomeD simp: in_set_zip)

lemma enum_map_defined:
  "s \<in> set fs \<Longrightarrow> \<exists>i. map_of (rev (zip fs [0..<length fs])) s = Some i"
proof -
  assume "s \<in> set fs"
  then have "s \<in> fst ` set (rev (zip fs [0..<length fs]))"
    by (simp flip: set_map)
  then show ?thesis
    by (metis map_of_eq_None_iff not_None_eq)
qed

lemma key_map_Some:
  "graph_inv dg \<Longrightarrow> key_map dg s = Some i \<Longrightarrow> i < N dg \<and> field_names dg ! i = s"
  using enum_map_Some[of "field_names dg" s i] by (simp add: graph_inv_def)

lemma key_map_defined:
  "graph_inv dg \<Longrightarrow> s \<in> set (field_names dg) \<Longrightarrow> \<exists>i. key_map dg s = Some i"
  using enum_map_defined[of s "field_names dg"] by (simp add: graph_inv_def)

lemma graph_inv_init: "graph_inv (DepGraph_init fs)"
  by (simp add: graph_inv_def DepGraph_init_def)

lemma graph_inv_add_edge:
  assumes inv: "graph_inv dg" and ai: "ai < N dg" and bi: "bi < N dg" and ne: "ai \<noteq> bi"
    and rev0: "graph dg (bi, ai) = 0"
  shows "graph_inv (dg\<lparr> graph := (graph dg)((ai, bi) := - 1), num_deps := 1 + num_deps dg \<rparr>)"
proof -
  let ?g = "(graph dg)((ai, bi) := - 1)"
  have old: "\<And>i j. graph dg (i, j) \<noteq> 0 \<Longrightarrow>
        graph dg (i, j) = - 1 \<and> i < N dg \<and> j < N dg \<and> i \<noteq> j \<and> graph dg (j, i) = 0"
    using inv unfolding graph_inv_def by blast
  have new: "?g (i, j) = - 1 \<and> i < N dg \<and> j < N dg \<and> i \<noteq> j \<and> ?g (j, i) = 0"
    if nz: "?g (i, j) \<noteq> 0" for i j
  proof (cases "(i, j) = (ai, bi)")
    case True
    then show ?thesis using ai bi ne rev0 by auto
  next
    case False
    then have gz: "graph dg (i, j) \<noteq> 0" using nz by (auto split: if_splits)
    from old[OF this] have o: "graph dg (i, j) = - 1" "i < N dg" "j < N dg" "i \<noteq> j" "graph dg (j, i) = 0"
      by auto
    have "(j, i) \<noteq> (ai, bi)" using rev0 gz by auto
    then show ?thesis using False o by simp
  qed
  have nz: "?g (ai, bi) \<noteq> 0" by simp
  have cnt: "\<not> (\<forall>i j. ?g (i, j) = 0)" using nz by blast
  have base: "N dg = length (field_names dg)"
    "key_map dg = map_of (rev (zip (field_names dg) [0..<N dg]))"
    using inv unfolding graph_inv_def by auto
  let ?dg = "dg\<lparr> graph := ?g, num_deps := 1 + num_deps dg \<rparr>"
  have sel: "graph ?dg = ?g" "N ?dg = N dg" "field_names ?dg = field_names dg"
    "key_map ?dg = key_map dg" "num_deps ?dg = 1 + num_deps dg"
    by simp_all
  show ?thesis
    unfolding graph_inv_def sel
  proof (intro conjI)
    show "\<forall>i j. ?g (i, j) \<noteq> 0 \<longrightarrow>
        ?g (i, j) = - 1 \<and> i < N dg \<and> j < N dg \<and> i \<noteq> j \<and> ?g (j, i) = 0"
      using new by blast
    show "(1 + num_deps dg = 0) = (\<forall>i j. ?g (i, j) = 0)"
      using cnt by simp
  qed (rule base)+
qed

text \<open>What \<^verbatim>\<open>add_dependency\<close> does on two known, different fields, case by case.\<close>

lemma add_dependency_cases:
  assumes "a \<noteq> b" "key_map dg a = Some ai" "key_map dg b = Some bi"
  shows "add_dependency a b dg =
     (if graph dg (ai, bi) = - 1 then (Inr False, dg)
      else if graph dg (bi, ai) \<noteq> 0 then (Inl CircularDependency, dg)
      else (Inr True, dg\<lparr> graph := (graph dg)((ai, bi) := - 1), num_deps := 1 + num_deps dg \<rparr>))"
  using assms by (simp add: add_dependency_def Let_def)

lemma graph_inv_add_dependency:
  assumes "graph_inv dg"
  shows "graph_inv (snd (add_dependency a b dg))"
proof (cases "a = b")
  case True
  then show ?thesis using assms by (simp add: add_dependency_def)
next
  case False
  show ?thesis
  proof (cases "key_map dg a")
    case None
    then show ?thesis using assms False by (simp add: add_dependency_def)
  next
    case (Some ai)
    note A = this
    show ?thesis
    proof (cases "key_map dg b")
      case None
      then show ?thesis using assms False A by (simp add: add_dependency_def)
    next
      case (Some bi)
      have ai: "ai < N dg" "field_names dg ! ai = a" using key_map_Some[OF assms A] by auto
      have bi: "bi < N dg" "field_names dg ! bi = b" using key_map_Some[OF assms Some] by auto
      have ne: "ai \<noteq> bi" using ai bi False by auto
      show ?thesis
        using graph_inv_add_edge[OF assms ai(1) bi(1) ne] assms
        by (simp add: add_dependency_cases[OF False A Some])
    qed
  qed
qed

lemma graph_inv_dg_ab: "graph_inv dg_ab"
  unfolding dg_ab_def by (rule graph_inv_add_dependency[OF graph_inv_init])

lemma graph_inv_dg_ba: "graph_inv dg_ba"
  unfolding dg_ba_def by (rule graph_inv_add_dependency[OF graph_inv_init])

lemma dg_ab_eval:
  "dg_ab = \<lparr> N = 2, graph = (\<lambda>_. 0)((0, 1) := - 1), field_names = [''a'', ''b''],
             key_map = [''a'' \<mapsto> 0, ''b'' \<mapsto> 1], num_deps = 1 \<rparr>"
  by (simp add: dg_ab_def add_dependency_def DepGraph_init_def)

lemma dg_ba_eval:
  "dg_ba = \<lparr> N = 2, graph = (\<lambda>_. 0)((1, 0) := - 1), field_names = [''a'', ''b''],
             key_map = [''a'' \<mapsto> 0, ''b'' \<mapsto> 1], num_deps = 1 \<rparr>"
  by (simp add: dg_ba_def add_dependency_def DepGraph_init_def)

text \<open>
  Claim C7.  In a dependency graph, \<^verbatim>\<open>add_dependency(x, x)\<close> fails with
  \<open>InvalidDependency\<close> for every name \<open>x\<close>, and \<^verbatim>\<open>add_dependency(a, b)\<close> on two
  different fields fails with \<open>CircularDependency\<close> whenever the edge from \<open>b\<close> to \<open>a\<close>
  is present.  In both cases the object is left exactly as it was: the matrix and the
  counter are unchanged.
\<close>

theorem add_dependency_rejects:
  assumes "graph_inv dg"
  shows "add_dependency x x dg = (Inl InvalidDependency, dg) \<and>
         (a \<in> set (field_names dg) \<and> b \<in> set (field_names dg) \<and> a \<noteq> b \<and> edge_present dg b a
            \<longrightarrow> add_dependency a b dg = (Inl CircularDependency, dg))"
proof (intro conjI impI)
  show "add_dependency x x dg = (Inl InvalidDependency, dg)"
    by (simp add: add_dependency_def)
next
  assume h: "a \<in> set (field_names dg) \<and> b \<in> set (field_names dg) \<and> a \<noteq> b \<and> edge_present dg b a"
  then obtain ai bi where k: "key_map dg a = Some ai" "key_map dg b = Some bi"
    using key_map_defined[OF assms] by blast
  with h have e: "graph dg (bi, ai) \<noteq> 0" by (simp add: edge_present_def)
  with assms have "graph dg (ai, bi) = 0" unfolding graph_inv_def by blast
  with h k e show "add_dependency a b dg = (Inl CircularDependency, dg)"
    by (simp add: add_dependency_cases)
qed

theorem add_dependency_rejects_witness:
  "graph_inv dg_ba \<and> ''a'' \<in> set (field_names dg_ba) \<and> ''b'' \<in> set (field_names dg_ba) \<and>
   ''a'' \<noteq> ''b'' \<and> edge_present dg_ba ''b'' ''a'' \<and>
   add_dependency ''a'' ''a'' dg_ba = (Inl InvalidDependency, dg_ba) \<and>
   add_dependency ''a'' ''b'' dg_ba = (Inl CircularDependency, dg_ba)"
proof -
  have h: "''a'' \<in> set (field_names dg_ba) \<and> ''b'' \<in> set (field_names dg_ba) \<and>
      ''a'' \<noteq> ''b'' \<and> edge_present dg_ba ''b'' ''a''"
    by (simp add: dg_ba_eval edge_present_def)
  show ?thesis
    using add_dependency_rejects[OF graph_inv_dg_ba, of "''a''" "''a''" "''b''"] h graph_inv_dg_ba
    by blast
qed

text \<open>
  Claim C8, as stated, fails: in a graph that already holds the edge from \<open>a\<close> to \<open>b\<close>
  (and no reverse edge), the first of the two calls returns \<^verbatim>\<open>False\<close>.
\<close>

theorem add_dependency_twice_counterexample:
  "graph_inv dg_ab \<and> ''a'' \<in> set (field_names dg_ab) \<and> ''b'' \<in> set (field_names dg_ab) \<and>
   ''a'' \<noteq> ''b'' \<and> \<not> edge_present dg_ab ''b'' ''a'' \<and>
   add_dependency ''a'' ''b'' dg_ab = (Inr False, dg_ab)"
proof -
  have "''a'' \<in> set (field_names dg_ab) \<and> ''b'' \<in> set (field_names dg_ab) \<and>
      ''a'' \<noteq> ''b'' \<and> \<not> edge_present dg_ab ''b'' ''a''"
    by (simp add: dg_ab_eval edge_present_def)
  moreover have "add_dependency ''a'' ''b'' dg_ab = (Inr False, dg_ab)"
    by (simp add: dg_ab_eval add_dependency_def)
  ultimately show ?thesis using graph_inv_dg_ab by blast
qed

text \<open>
  Claim C8, amended.  In a dependency graph, for two different fields \<open>a\<close> and \<open>b\<close> with
  neither the edge from \<open>b\<close> to \<open>a\<close> nor the edge from \<open>a\<close> to \<open>b\<close> present, the first
  \<^verbatim>\<open>add_dependency(a, b)\<close> returns \<^verbatim>\<open>True\<close>, the second returns \<^verbatim>\<open>False\<close> and leaves
  the object as the first call left it, and the dependency count is one higher than
  before the two calls.
\<close>

theorem add_dependency_twice:
  assumes "graph_inv dg" "a \<in> set (field_names dg)" "b \<in> set (field_names dg)" "a \<noteq> b"
    and "\<not> edge_present dg b a" "\<not> edge_present dg a b"
  shows "\<exists>dg1. add_dependency a b dg = (Inr True, dg1) \<and>
               add_dependency a b dg1 = (Inr False, dg1) \<and>
               dependency_count dg1 = dependency_count dg + 1"
proof -
  obtain ai bi where k: "key_map dg a = Some ai" "key_map dg b = Some bi"
    using key_map_defined[OF assms(1)] assms(2,3) by blast
  with assms(5,6) have e: "graph dg (bi, ai) = 0" "graph dg (ai, bi) = 0"
    by (simp_all add: edge_present_def)
  show ?thesis
    using assms(4) k e by (simp add: add_dependency_def dependency_count_def)
qed

theorem add_dependency_twice_witness:
  "\<exists>dg1. add_dependency ''a'' ''b'' (DepGraph_init [''a'', ''b'']) = (Inr True, dg1) \<and>
         add_dependency ''a'' ''b'' dg1 = (Inr False, dg1) \<and>
         dependency_count dg1 = dependency_count (DepGraph_init [''a'', ''b'']) + 1"
proof -
  have "\<not> edge_present (DepGraph_init [''a'', ''b'']) ''b'' ''a''"
       "\<not> edge_present (DepGraph_init [''a'', ''b'']) ''a'' ''b''"
    by (simp_all add: edge_present_def DepGraph_init_def)
  then show ?thesis
    using add_dependency_twice[OF graph_inv_init, of "''a''" "[''a'', ''b'']" "''b''"]
    by (simp add: DepGraph_init_def)
qed

section \<open>Cycle detection\<close>

subsection \<open>General facts about fold\<close>

lemma fold_preserves:
  assumes "\<And>x s. P s \<Longrightarrow> P (f x s)" "P s"
  shows "P (fold f xs s)"
  using assms(2) by (induction xs arbitrary: s) (auto intro: assms(1))

lemma fold_establishes:
  assumes "x \<in> set xs"
    and pre: "\<And>y s. P s \<Longrightarrow> P (f y s)"
    and est: "\<And>s. P s \<Longrightarrow> Q (f x s)"
    and post: "\<And>y s. Q s \<Longrightarrow> Q (f y s)"
    and "P s"
  shows "Q (fold f xs s)"
  using assms(1,5)
proof (induction xs arbitrary: s)
  case Nil
  then show ?case by simp
next
  case (Cons y ys)
  show ?case
  proof (cases "x = y")
    case True
    have "Q (f y s)" using est Cons.prems(2) True by simp
    then show ?thesis using fold_preserves[of Q f "f y s" ys] post by simp
  next
    case False
    then have "x \<in> set ys" using Cons.prems(1) by simp
    moreover have "P (f y s)" using pre Cons.prems(2) by simp
    ultimately show ?thesis using Cons.IH by simp
  qed
qed

subsection \<open>Walks with bounded inner nodes\<close>

lemma via_split:
  "via E (insert k S) i j \<Longrightarrow> via E S i j \<or> (via E S i k \<and> via E S k j)"
proof (induction rule: via.induct)
  case (direct i j)
  then show ?case by (simp add: via.direct)
next
  case (through i m j)
  show ?case
  proof (cases "m = k")
    case True
    then have "via E S i k" using through.hyps(1) by (simp add: via.direct)
    moreover have "via E S k j" using through.IH True by blast
    ultimately show ?thesis by blast
  next
    case False
    then have mS: "m \<in> S" using through.hyps(2) by simp
    from through.IH show ?thesis
    proof
      assume "via E S m j"
      then show ?thesis using via.through[OF through.hyps(1) mS] by blast
    next
      assume "via E S m k \<and> via E S k j"
      then show ?thesis using via.through[OF through.hyps(1) mS] by blast
    qed
  qed
qed

lemma trancl_via:
  assumes "(i, j) \<in> E\<^sup>+" and "\<And>a b. (a, b) \<in> E \<Longrightarrow> b \<in> S"
  shows "via E S i j"
  using assms(1)
proof (induction rule: converse_trancl_induct)
  case (base y)
  then show ?case by (rule via.direct)
next
  case (step y z)
  then show ?case using assms(2) via.through by blast
qed

subsection \<open>Soundness\<close>

lemma sound_relax:
  assumes "sound E dm" "justified E i k a"
  shows "sound E (fw_relax k i a j dm)"
proof (cases "dm (k, j)")
  case None
  then show ?thesis using assms by (simp add: fw_relax_def)
next
  case (Some b)
  then have jb: "justified E k j b" using assms(1) by (simp add: sound_def)
  have jab: "justified E i j (a + b)"
    using assms(2) jb unfolding justified_def
    by (smt (verit) trancl_trans)
  show ?thesis
    unfolding sound_def
  proof (intro allI impI)
    fix u v x assume h: "fw_relax k i a j dm (u, v) = Some x"
    show "justified E u v x"
    proof (cases "(u, v) = (i, j) \<and> fw_relax k i a j dm = dm((i, j) := Some (a + b))")
      case True
      then show ?thesis using h jab by auto
    next
      case False
      then have "dm (u, v) = Some x"
        using h Some by (auto simp: fw_relax_def Let_def split: if_splits)
      then show ?thesis using assms(1) by (simp add: sound_def)
    qed
  qed
qed

lemma sound_row: "sound E dm \<Longrightarrow> sound E (fw_row n k i dm)"
proof (cases "dm (i, k)")
  case None
  assume "sound E dm"
  then show ?thesis using None by (simp add: fw_row_def)
next
  case (Some a)
  assume s: "sound E dm"
  then have "justified E i k a" using Some by (simp add: sound_def)
  then have "sound E (fold (fw_relax k i a) [0..<n] dm)"
    using s by (intro fold_preserves[where P = "sound E"]) (auto intro: sound_relax)
  then show ?thesis using Some by (simp add: fw_row_def)
qed

lemma sound_floyd_warshall: "sound E dm \<Longrightarrow> sound E (floyd_warshall n dm)"
  unfolding floyd_warshall_def
  by (intro fold_preserves[where P = "sound E"]) (auto intro: sound_row)

lemma sound_dense:
  assumes "graph_inv dg"
  shows "sound (edges dg) (csgraph_to_dense (graph dg))"
  unfolding sound_def
proof (intro allI impI)
  fix i j x assume h: "csgraph_to_dense (graph dg) (i, j) = Some x"
  show "justified (edges dg) i j x"
  proof (cases "i = j")
    case True
    then show ?thesis using h by (simp add: csgraph_to_dense_def justified_def)
  next
    case False
    then have nz: "graph dg (i, j) \<noteq> 0" "x = graph dg (i, j)"
      using h by (auto simp: csgraph_to_dense_def split: if_splits)
    then have "graph dg (i, j) = - 1" using assms unfolding graph_inv_def by blast
    then have "x = - 1" "(i, j) \<in> edges dg" using nz by (simp_all add: edges_def)
    then show ?thesis unfolding justified_def by (simp add: r_into_trancl')
  qed
qed

subsection \<open>Completeness\<close>

lemma negative_relax: "negative dm u v \<Longrightarrow> negative (fw_relax k i a j dm) u v"
  unfolding negative_def fw_relax_def Let_def
  by (auto split: option.splits)

lemma negative_row: "negative dm u v \<Longrightarrow> negative (fw_row n k i dm) u v"
  unfolding fw_row_def
  by (auto split: option.splits intro: fold_preserves[where P = "\<lambda>d. negative d u v"] negative_relax)

lemma negative_round: "negative dm u v \<Longrightarrow> negative (fold (fw_row n k) xs dm) u v"
  by (rule fold_preserves[where P = "\<lambda>d. negative d u v"]) (auto intro: negative_row)

lemma negative_relax_new:
  assumes "a < 0" "negative dm k j"
  shows "negative (fw_relax k i a j dm) i j"
proof -
  obtain b where b: "dm (k, j) = Some b" "b < 0" using assms(2) by (auto simp: negative_def)
  show ?thesis
    using assms(1) b unfolding negative_def fw_relax_def Let_def
    by (auto split: option.splits)
qed

lemma negative_row_new:
  assumes "negative dm i k" "negative dm k j" "j < n"
  shows "negative (fw_row n k i dm) i j"
proof -
  obtain a where a: "dm (i, k) = Some a" "a < 0" using assms(1) by (auto simp: negative_def)
  have "negative (fold (fw_relax k i a) [0..<n] dm) i j"
  proof (rule fold_establishes[where x = j and P = "\<lambda>d. negative d k j"])
    show "j \<in> set [0..<n]" using assms(3) by simp
    show "\<And>y s. negative s k j \<Longrightarrow> negative (fw_relax k i a y s) k j" by (rule negative_relax)
    show "\<And>s. negative s k j \<Longrightarrow> negative (fw_relax k i a j s) i j"
      using a(2) by (rule negative_relax_new)
    show "\<And>y s. negative s i j \<Longrightarrow> negative (fw_relax k i a y s) i j" by (rule negative_relax)
    show "negative dm k j" by (rule assms(2))
  qed
  then show ?thesis using a by (simp add: fw_row_def)
qed

lemma negative_round_new:
  assumes "negative dm i k" "negative dm k j" "i < n" "j < n"
  shows "negative (fold (fw_row n k) [0..<n] dm) i j"
proof (rule fold_establishes[where x = i and P = "\<lambda>d. negative d i k \<and> negative d k j"])
  show "i \<in> set [0..<n]" using assms(3) by simp
  show "\<And>y s. negative s i k \<and> negative s k j \<Longrightarrow>
          negative (fw_row n k y s) i k \<and> negative (fw_row n k y s) k j"
    by (simp add: negative_row)
  show "\<And>s. negative s i k \<and> negative s k j \<Longrightarrow> negative (fw_row n k i s) i j"
    using assms(4) by (simp add: negative_row_new)
  show "\<And>y s. negative s i j \<Longrightarrow> negative (fw_row n k y s) i j" by (rule negative_row)
  show "negative dm i k \<and> negative dm k j" using assms(1,2) by simp
qed

lemma rounds_complete:
  assumes base: "\<And>i j. (i, j) \<in> E \<Longrightarrow> negative dm i j"
    and "m \<le> n" "i < n" "j < n" "via E {..<m} i j"
  shows "negative (fold (\<lambda>k. fold (fw_row n k) [0..<n]) [0..<m] dm) i j"
  using assms(2-)
proof (induction m arbitrary: i j)
  case 0
  then have "(i, j) \<in> E" by (auto elim: via.cases)
  then show ?case using base by simp
next
  case (Suc m)
  let ?d = "fold (\<lambda>k. fold (fw_row n k) [0..<n]) [0..<m] dm"
  have eq: "fold (\<lambda>k. fold (fw_row n k) [0..<n]) [0..<Suc m] dm = fold (fw_row n m) [0..<n] ?d"
    by simp
  have mn: "m \<le> n" "m < n" using Suc.prems(1) by auto
  have "via E (insert m {..<m}) i j" using Suc.prems(4) by (simp add: lessThan_Suc)
  from via_split[OF this] show ?case
  proof
    assume "via E {..<m} i j"
    then have "negative ?d i j" using Suc.IH mn Suc.prems by blast
    then show ?thesis unfolding eq by (rule negative_round)
  next
    assume "via E {..<m} i m \<and> via E {..<m} m j"
    then have "negative ?d i m" "negative ?d m j" using Suc.IH mn Suc.prems by blast+
    then show ?thesis unfolding eq using Suc.prems(2,3) by (rule negative_round_new)
  qed
qed

lemma has_closed_cycles_negative:
  "has_closed_cycles dg \<longleftrightarrow>
     (\<exists>i<N dg. negative (floyd_warshall (N dg) (csgraph_to_dense (graph dg))) i i)"
proof -
  have "(case dm (i, i) of None \<Rightarrow> False | Some d \<Rightarrow> d < 0) = negative dm i i"
    for dm :: dist_matrix and i
    by (cases "dm (i, i)") (simp_all add: negative_def)
  then show ?thesis
    by (simp add: has_closed_cycles_def list_ex_iff Bex_def)
qed

lemma has_closed_cycles_iff_trancl:
  assumes "graph_inv dg"
  shows "has_closed_cycles dg \<longleftrightarrow> (\<exists>i. (i, i) \<in> (edges dg)\<^sup>+)"
proof
  let ?d = "floyd_warshall (N dg) (csgraph_to_dense (graph dg))"
  assume "has_closed_cycles dg"
  then obtain i x where "?d (i, i) = Some x" "x < 0"
    by (auto simp: has_closed_cycles_negative negative_def)
  moreover have "sound (edges dg) ?d"
    by (intro sound_floyd_warshall sound_dense assms)
  ultimately show "\<exists>i. (i, i) \<in> (edges dg)\<^sup>+"
    unfolding sound_def justified_def by metis
next
  let ?start = "csgraph_to_dense (graph dg)"
  let ?d = "floyd_warshall (N dg) ?start"
  assume "\<exists>i. (i, i) \<in> (edges dg)\<^sup>+"
  then obtain i where i: "(i, i) \<in> (edges dg)\<^sup>+" by blast
  have bnd: "\<And>a b. (a, b) \<in> edges dg \<Longrightarrow> a < N dg \<and> b < N dg"
    using assms unfolding graph_inv_def edges_def by blast
  have iN: "i < N dg" using i bnd by (meson tranclD)
  have v: "via (edges dg) {..<N dg} i i"
    using trancl_via[OF i, of "{..<N dg}"] bnd by simp
  have base: "negative ?start a b" if "(a, b) \<in> edges dg" for a b
  proof -
    have nz: "graph dg (a, b) \<noteq> 0" using that by (simp add: edges_def)
    then have "graph dg (a, b) = - 1 \<and> a \<noteq> b" using assms unfolding graph_inv_def by blast
    then show ?thesis by (simp add: negative_def csgraph_to_dense_def)
  qed
  have "negative ?d i i"
    unfolding floyd_warshall_def
    by (rule rounds_complete[OF base _ iN iN v]) simp_all
  then show "has_closed_cycles dg"
    using iN by (auto simp: has_closed_cycles_negative)
qed

subsection \<open>Cycles as node lists\<close>

lemma path_trancl:
  "is_path g (u # vs @ [v]) \<Longrightarrow> (u, v) \<in> {(i, j). g (i, j) \<noteq> 0}\<^sup>+"
proof (induction vs arbitrary: u)
  case Nil
  then show ?case by auto
next
  case (Cons w ws)
  then have "g (u, w) \<noteq> 0" "is_path g (w # ws @ [v])" by simp_all
  then show ?case using Cons.IH by (meson case_prodI mem_Collect_eq trancl_into_trancl2)
qed

lemma trancl_path:
  "(u, v) \<in> {(i, j). g (i, j) \<noteq> 0}\<^sup>+ \<Longrightarrow> \<exists>vs. is_path g (u # vs @ [v])"
proof (induction rule: converse_trancl_induct)
  case (base y)
  then have "is_path g (y # [] @ [v])" by simp
  then show ?case by blast
next
  case (step y z)
  then obtain vs where "is_path g (z # vs @ [v])" by blast
  then have "is_path g (y # (z # vs) @ [v])" using step.hyps(1) by simp
  then show ?case by blast
qed

lemma cycle_iff_trancl:
  assumes "graph_inv dg"
  shows "(\<exists>vs. directed_cycle dg vs) \<longleftrightarrow> (\<exists>i. (i, i) \<in> (edges dg)\<^sup>+)"
proof
  assume "\<exists>vs. directed_cycle dg vs"
  then obtain vs where c: "2 \<le> length vs" "is_path (graph dg) (vs @ [hd vs])"
    by (auto simp: directed_cycle_def)
  then obtain a rest where vs: "vs = a # rest" by (cases vs) auto
  then have "is_path (graph dg) (a # rest @ [a])" using c(2) by simp
  then show "\<exists>i. (i, i) \<in> (edges dg)\<^sup>+" unfolding edges_def using path_trancl by blast
next
  assume "\<exists>i. (i, i) \<in> (edges dg)\<^sup>+"
  then obtain i ws where p: "is_path (graph dg) (i # ws @ [i])"
    unfolding edges_def using trancl_path by blast
  have "ws \<noteq> []"
  proof
    assume "ws = []"
    then have "graph dg (i, i) \<noteq> 0" using p by simp
    then show False using assms unfolding graph_inv_def by blast
  qed
  then have "2 \<le> length (i # ws)" by (cases ws) auto
  then have "directed_cycle dg (i # ws)" using p by (simp add: directed_cycle_def)
  then show "\<exists>vs. directed_cycle dg vs" by blast
qed

lemma has_closed_cycles_iff:
  "graph_inv dg \<Longrightarrow> has_closed_cycles dg \<longleftrightarrow> (\<exists>vs. directed_cycle dg vs)"
  by (simp add: has_closed_cycles_iff_trancl cycle_iff_trancl)

section \<open>The initialisation order\<close>

lemma spec_init_order_Nil: "spec_init_order g [] = Some []"
  by (simp add: spec_init_order.simps)

lemma spec_init_order_pick:
  assumes "remaining \<noteq> []" "find (free_node g remaining) remaining = Some i"
  shows "spec_init_order g remaining = map_option ((#) i) (spec_init_order g (removeAll i remaining))"
proof -
  have "find (\<lambda>i. list_all (\<lambda>j. j = i \<or> g (i, j) = 0) remaining) remaining = Some i"
    using assms(2) unfolding free_node_def[abs_def] by simp
  then show ?thesis using assms(1) by (subst spec_init_order.simps) simp
qed

lemma spec_init_order_stuck:
  assumes "remaining \<noteq> []" "find (free_node g remaining) remaining = None"
  shows "spec_init_order g remaining = None"
proof -
  have "find (\<lambda>i. list_all (\<lambda>j. j = i \<or> g (i, j) = 0) remaining) remaining = None"
    using assms(2) unfolding free_node_def[abs_def] by simp
  then show ?thesis using assms(1) by (subst spec_init_order.simps) simp
qed

text \<open>An acyclic relation has, in every non-empty finite set, a node without successor there.\<close>

lemma acyclic_free_node:
  assumes fin: "finite E" and ac: "acyclic E" and ne: "remaining \<noteq> []"
    and E: "\<And>i j. g (i, j) \<noteq> 0 \<Longrightarrow> (i, j) \<in> E"
  shows "\<exists>i \<in> set remaining. free_node g remaining i"
proof -
  have "wf (E\<inverse>)" using fin ac by (rule finite_acyclic_wf_converse)
  moreover obtain x where "x \<in> set remaining" using ne by (cases remaining) auto
  ultimately obtain z where z: "z \<in> set remaining" "\<And>y. (y, z) \<in> E\<inverse> \<Longrightarrow> y \<notin> set remaining"
    by (rule wfE_min) blast
  have "free_node g remaining z"
    unfolding free_node_def list_all_iff using z(2) E by auto
  then show ?thesis using z(1) by blast
qed

lemma spec_init_order_total:
  assumes fin: "finite E" and ac: "acyclic E"
    and E: "\<And>i j. g (i, j) \<noteq> 0 \<Longrightarrow> (i, j) \<in> E"
  shows "\<exists>order. spec_init_order g remaining = Some order"
proof (induction "length remaining" arbitrary: remaining rule: less_induct)
  case less
  show ?case
  proof (cases "remaining = []")
    case True
    then show ?thesis by (simp add: spec_init_order_Nil)
  next
    case False
    from acyclic_free_node[OF fin ac False E]
    obtain z where "z \<in> set remaining" "free_node g remaining z" by blast
    then obtain i where i: "find (free_node g remaining) remaining = Some i"
      by (cases "find (free_node g remaining) remaining") (auto simp: find_None_iff)
    then have "i \<in> set remaining" by (auto simp: find_Some_iff)
    then have "length (removeAll i remaining) < length remaining" by (rule length_removeAll_less)
    from less[OF this] obtain r where "spec_init_order g (removeAll i remaining) = Some r" by blast
    then show ?thesis using spec_init_order_pick[OF False i] by simp
  qed
qed

lemma spec_init_order_set:
  "spec_init_order g remaining = Some order \<Longrightarrow> set order = set remaining"
proof (induction "length remaining" arbitrary: remaining order rule: less_induct)
  case less
  show ?case
  proof (cases "remaining = []")
    case True
    then show ?thesis using less.prems by (simp add: spec_init_order_Nil)
  next
    case False
    show ?thesis
    proof (cases "find (free_node g remaining) remaining")
      case None
      then show ?thesis using less.prems spec_init_order_stuck[OF False None] by simp
    next
      case (Some i)
      then have mem: "i \<in> set remaining" by (auto simp: find_Some_iff)
      then have len: "length (removeAll i remaining) < length remaining" by (rule length_removeAll_less)
      from less.prems spec_init_order_pick[OF False Some]
      obtain r where r: "spec_init_order g (removeAll i remaining) = Some r" "order = i # r"
        by auto
      from less.hyps[OF len r(1)] have "set r = set remaining - {i}" by simp
      then show ?thesis using r(2) mem by auto
    qed
  qed
qed

lemma spec_init_order_distinct:
  "spec_init_order g remaining = Some order \<Longrightarrow> distinct order"
proof (induction "length remaining" arbitrary: remaining order rule: less_induct)
  case less
  show ?case
  proof (cases "remaining = []")
    case True
    then show ?thesis using less.prems by (simp add: spec_init_order_Nil)
  next
    case False
    show ?thesis
    proof (cases "find (free_node g remaining) remaining")
      case None
      then show ?thesis using less.prems spec_init_order_stuck[OF False None] by simp
    next
      case (Some i)
      then have mem: "i \<in> set remaining" by (auto simp: find_Some_iff)
      then have len: "length (removeAll i remaining) < length remaining" by (rule length_removeAll_less)
      from less.prems spec_init_order_pick[OF False Some]
      obtain r where r: "spec_init_order g (removeAll i remaining) = Some r" "order = i # r"
        by auto
      have "set r = set remaining - {i}" using spec_init_order_set[OF r(1)] by simp
      moreover have "distinct r" using less.hyps[OF len r(1)] .
      ultimately show ?thesis using r(2) by simp
    qed
  qed
qed

text \<open>Whoever comes first does not depend on anyone that comes later.\<close>

lemma spec_init_order_topological:
  "spec_init_order g remaining = Some (pre @ i # post) \<Longrightarrow> j \<in> set post \<Longrightarrow> g (i, j) = 0"
proof (induction "length remaining" arbitrary: remaining pre rule: less_induct)
  case less
  have ne: "remaining \<noteq> []" using less.prems(1) by (auto simp: spec_init_order_Nil)
  show ?case
  proof (cases "find (free_node g remaining) remaining")
    case None
    then show ?thesis using less.prems spec_init_order_stuck[OF ne None] by simp
  next
    case (Some k)
    then have mem: "k \<in> set remaining" and free: "free_node g remaining k"
      by (auto simp: find_Some_iff)
    have len: "length (removeAll k remaining) < length remaining"
      using mem by (rule length_removeAll_less)
    from less.prems(1) spec_init_order_pick[OF ne Some]
    obtain r where r: "spec_init_order g (removeAll k remaining) = Some r" "pre @ i # post = k # r"
      by auto
    show ?thesis
    proof (cases pre)
      case Nil
      then have ki: "k = i" "r = post" using r(2) by auto
      have d: "distinct (k # r)" using spec_init_order_distinct less.prems(1) r(2) by metis
      have "set (k # r) = set remaining" using spec_init_order_set less.prems(1) r(2) by metis
      then have "j \<in> set remaining" "j \<noteq> i" using less.prems(2) ki d by auto
      then show ?thesis using free ki(1) by (auto simp: free_node_def list_all_iff)
    next
      case (Cons p pre')
      then have "r = pre' @ i # post" using r(2) by simp
      then show ?thesis using less.hyps[OF len] r(1) less.prems(2) by blast
    qed
  qed
qed

lemma spec_init_order_no_edges:
  assumes "\<And>i j. g (i, j) = 0" "distinct remaining"
  shows "spec_init_order g remaining = Some remaining"
  using assms(2)
proof (induction remaining)
  case Nil
  then show ?case by (simp add: spec_init_order_Nil)
next
  case (Cons x xs)
  have "free_node g (x # xs) x" using assms(1) by (simp add: free_node_def list_all_iff)
  then have f: "find (free_node g (x # xs)) (x # xs) = Some x" by simp
  have "removeAll x (x # xs) = xs" using Cons.prems by simp
  then show ?case using spec_init_order_pick[OF _ f] Cons by simp
qed

lemma decrement_deps_apply:
  "distinct tree \<Longrightarrow>
   decrement_deps g idx tree nn i = (if i \<in> set tree \<and> g (i, idx) \<noteq> 0 then nn i + 1 else nn i)"
  unfolding decrement_deps_def
proof (induction tree arbitrary: nn)
  case Nil
  then show ?case by simp
next
  case (Cons x xs)
  then have d: "distinct xs" "x \<notin> set xs" by simp_all
  show ?case using Cons.IH[OF d(1)] d(2) by auto
qed

lemma counts_ok_zero:
  assumes "counts_ok g tree nn" "i \<in> set tree" "g (i, i) = 0"
  shows "nn i = 0 \<longleftrightarrow> free_node g tree i"
proof -
  have fin: "finite {j \<in> set tree. g (i, j) \<noteq> 0}" by simp
  have "nn i = 0 \<longleftrightarrow> card {j \<in> set tree. g (i, j) \<noteq> 0} = 0"
    using assms(1,2) by (simp add: counts_ok_def)
  also have "\<dots> \<longleftrightarrow> {j \<in> set tree. g (i, j) \<noteq> 0} = {}"
    using fin by (simp only: card_eq_0_iff) simp
  also have "\<dots> \<longleftrightarrow> free_node g tree i"
    using assms(3) by (auto simp: free_node_def list_all_iff)
  finally show ?thesis .
qed

lemma counts_ok_find:
  assumes "counts_ok g tree nn" "\<And>i. g (i, i) = 0"
  shows "find (\<lambda>idx. nn idx = 0) tree = find (free_node g tree) tree"
  by (rule find_cong) (use assms counts_ok_zero in auto)

lemma counts_ok_step:
  assumes ok: "counts_ok g tree nn" and d: "distinct tree" and mem: "idx \<in> set tree"
  shows "counts_ok g (removeAll idx tree) (decrement_deps g idx tree nn)"
  unfolding counts_ok_def
proof
  fix i assume "i \<in> set (removeAll idx tree)"
  then have i: "i \<in> set tree" "i \<noteq> idx" by auto
  let ?A = "{j \<in> set tree. g (i, j) \<noteq> 0}"
  let ?B = "{j \<in> set (removeAll idx tree). g (i, j) \<noteq> 0}"
  have nn: "nn i = - int (card ?A)" using ok i(1) by (simp add: counts_ok_def)
  have B: "?B = ?A - {idx}" by auto
  show "decrement_deps g idx tree nn i = - int (card ?B)"
  proof (cases "g (i, idx) \<noteq> 0")
    case True
    then have "idx \<in> ?A" using mem by simp
    then have "Suc (card (?A - {idx})) = card ?A" by (intro card_Suc_Diff1) simp_all
    then have "card ?A = Suc (card ?B)" unfolding B by simp
    then show ?thesis using True i(1) nn by (simp add: decrement_deps_apply[OF d])
  next
    case False
    then have "?B = ?A" by auto
    then show ?thesis using False nn by (simp add: decrement_deps_apply[OF d])
  qed
qed

lemma row_sum_count:
  assumes "\<And>j. f j = 0 \<or> f j = - 1"
  shows "sum_list (map f [0..<n]) = - int (card {j \<in> set [0..<n]. f j \<noteq> (0::int)})"
proof (induction n)
  case 0
  then show ?case by simp
next
  case (Suc n)
  have split: "{j \<in> set [0..<Suc n]. f j \<noteq> 0} =
      {j \<in> set [0..<n]. f j \<noteq> 0} \<union> (if f n \<noteq> 0 then {n} else {})"
    by (auto simp: less_Suc_eq)
  have "card ({j \<in> set [0..<n]. f j \<noteq> 0} \<union> (if f n \<noteq> 0 then {n} else {})) =
      card {j \<in> set [0..<n]. f j \<noteq> 0} + (if f n \<noteq> 0 then 1 else 0)"
    by (simp add: card_insert_if)
  then show ?case using Suc assms[of n] unfolding split by auto
qed

lemma counts_ok_init:
  assumes "graph_inv dg"
  shows "counts_ok (graph dg) [0..<N dg] (row_sums dg)"
  unfolding counts_ok_def row_sums_def
proof
  fix i
  have "graph dg (i, j) = 0 \<or> graph dg (i, j) = - 1" for j
    using assms unfolding graph_inv_def by blast
  then show "sum_list (map (\<lambda>j. graph dg (i, j)) [0..<N dg])
      = - int (card {j \<in> set [0..<N dg]. graph dg (i, j) \<noteq> 0})"
    by (rule row_sum_count)
qed

lemma init_order_loop_refines:
  assumes diag: "\<And>i. g (i, i) = 0"
  shows "spec_init_order g tree = Some order \<Longrightarrow> distinct tree \<Longrightarrow> counts_ok g tree nn \<Longrightarrow>
         init_order_loop g tree resolved nn = Some (resolved @ order)"
proof (induction "length tree" arbitrary: tree order resolved nn rule: less_induct)
  case less
  show ?case
  proof (cases "tree = []")
    case True
    then have "order = []" using less.prems(1) by (simp add: spec_init_order_Nil)
    then show ?thesis using True by (subst init_order_loop.simps) simp
  next
    case False
    have fnd: "find (\<lambda>idx. nn idx = 0) tree = find (free_node g tree) tree"
      using counts_ok_find[OF less.prems(3)] diag by blast
    show ?thesis
    proof (cases "find (free_node g tree) tree")
      case None
      then show ?thesis using less.prems(1) spec_init_order_stuck[OF False None] by simp
    next
      case (Some idx)
      then have mem: "idx \<in> set tree" by (auto simp: find_Some_iff)
      then have len: "length (removeAll idx tree) < length tree" by (rule length_removeAll_less)
      from less.prems(1) spec_init_order_pick[OF False Some]
      obtain r where r: "spec_init_order g (removeAll idx tree) = Some r" "order = idx # r"
        by auto
      have d': "distinct (removeAll idx tree)" using less.prems(2) by (simp add: distinct_removeAll)
      have ok': "counts_ok g (removeAll idx tree) (decrement_deps g idx tree nn)"
        using counts_ok_step[OF less.prems(3) less.prems(2) mem] .
      have rec: "init_order_loop g (removeAll idx tree) (resolved @ [idx]) (decrement_deps g idx tree nn)
          = Some ((resolved @ [idx]) @ r)"
        using less.hyps[OF len r(1) d' ok'] .
      have "init_order_loop g tree resolved nn =
          init_order_loop g (removeAll idx tree) (resolved @ [idx]) (decrement_deps g idx tree nn)"
        using False fnd Some by (subst init_order_loop.simps) simp
      then show ?thesis using rec r(2) by simp
    qed
  qed
qed

lemma finite_edges: "graph_inv dg \<Longrightarrow> finite (edges dg)"
proof -
  assume "graph_inv dg"
  then have "edges dg \<subseteq> {..<N dg} \<times> {..<N dg}"
    unfolding graph_inv_def edges_def by blast
  then show ?thesis by (rule finite_subset) simp
qed

lemma acyclic_edges:
  "graph_inv dg \<Longrightarrow> \<not> has_closed_cycles dg \<Longrightarrow> acyclic (edges dg)"
  by (simp add: has_closed_cycles_iff_trancl acyclic_def)

lemma get_init_order_acyclic:
  assumes inv: "graph_inv dg" and ac: "\<not> has_closed_cycles dg"
  shows "\<exists>order. spec_init_order (graph dg) [0..<N dg] = Some order \<and>
           get_init_order dg = Some (Inr (map (\<lambda>i. field_names dg ! i) order))"
proof -
  have E: "\<And>i j. graph dg (i, j) \<noteq> 0 \<Longrightarrow> (i, j) \<in> edges dg" by (simp add: edges_def)
  obtain order where o: "spec_init_order (graph dg) [0..<N dg] = Some order"
    using spec_init_order_total[OF finite_edges[OF inv] acyclic_edges[OF inv ac] E] by blast
  have diag: "\<And>i. graph dg (i, i) = 0" using inv unfolding graph_inv_def by blast
  have "init_order_loop (graph dg) [0..<N dg] [] (row_sums dg) = Some ([] @ order)"
    by (rule init_order_loop_refines[OF diag o _ counts_ok_init[OF inv]]) simp
  then show ?thesis using o ac by (simp add: get_init_order_def)
qed

section \<open>Cycle detection and initialisation order: the claims\<close>

lemma graph_inv_add_all: "graph_inv dg \<Longrightarrow> graph_inv (add_all deps dg)"
  unfolding add_all_def
  by (rule fold_preserves[where P = graph_inv]) (auto intro: graph_inv_add_dependency)

lemma acyclic_by_rank:
  fixes r :: "nat \<Rightarrow> nat"
  assumes "\<And>i j. graph dg (i, j) \<noteq> 0 \<Longrightarrow> r j < r i"
  shows "\<not> (\<exists>vs. directed_cycle dg vs)"
proof
  assume "\<exists>vs. directed_cycle dg vs"
  then obtain vs where c: "2 \<le> length vs" "is_path (graph dg) (vs @ [hd vs])"
    by (auto simp: directed_cycle_def)
  then obtain a rest where vs: "vs = a # rest" by (cases vs) auto
  then have "is_path (graph dg) (a # rest @ [a])" using c(2) by simp
  then have t: "(a, a) \<in> {(i, j). graph dg (i, j) \<noteq> 0}\<^sup>+" by (rule path_trancl)
  have "(i, j) \<in> {(i, j). graph dg (i, j) \<noteq> 0}\<^sup>+ \<Longrightarrow> r j < r i" for i j
  proof (induction rule: trancl_induct)
    case (base y)
    then show ?case using assms by simp
  next
    case (step y z)
    then have "r z < r y" using assms by simp
    then show ?case using step.IH by simp
  qed
  from this[OF t] show False by simp
qed

lemma dg_abc_eval:
  "graph dg_abc = (\<lambda>_. 0)((0, 1) := - 1, (1, 2) := - 1, (2, 0) := - 1)"
  "N dg_abc = 3"
  by (simp_all add: dg_abc_def add_all_def add_dependency_def DepGraph_init_def eval_nat_numeral)

lemma dg_small_eval:
  "graph dg_small = (\<lambda>_. 0)((0, 1) := - 1, (1, 3) := - 1, (2, 0) := - 1, (2, 3) := - 1)"
  "N dg_small = 4"
  "field_names dg_small = [''a'', ''b'', ''c'', ''d'']"
  by (simp_all add: dg_small_def add_all_def add_dependency_def DepGraph_init_def eval_nat_numeral)

lemma graph_inv_dg_abc: "graph_inv dg_abc"
  unfolding dg_abc_def by (rule graph_inv_add_all[OF graph_inv_init])

lemma graph_inv_dg_small: "graph_inv dg_small"
  unfolding dg_small_def by (rule graph_inv_add_all[OF graph_inv_init])

lemma dg_small_acyclic: "\<not> (\<exists>vs. directed_cycle dg_small vs)"
proof (rule acyclic_by_rank[where r = "\<lambda>i. if i = 3 then 0 else if i = 1 then 1 else if i = 0 then 2 else 3"])
  fix i j :: nat
  assume "graph dg_small (i, j) \<noteq> 0"
  then have "(i, j) = (0, 1) \<or> (i, j) = (1, 3) \<or> (i, j) = (2, 0) \<or> (i, j) = (2, 3)"
    by (simp add: dg_small_eval split: if_splits)
  then show "(if j = 3 then 0 else if j = 1 then 1 else if j = 0 then 2 else 3)
      < (if i = 3 then (0::nat) else if i = 1 then 1 else if i = 0 then 2 else 3)"
    by auto
qed

lemma dg_small_spec_order:
  "spec_init_order (graph dg_small) [0..<N dg_small] = Some [3, 1, 0, 2]"
proof -
  have u: "[0..<N dg_small] = [0, 1, 2, 3]" by (simp add: dg_small_eval upt_rec)
  show ?thesis
    unfolding u by (simp add: spec_init_order.simps dg_small_eval)
qed

text \<open>
  Claim C6.  In a dependency graph, \<^verbatim>\<open>has_closed_cycles\<close> returns \<^verbatim>\<open>True\<close> exactly when
  the graph contains a directed cycle (which then has length at least 2); in
  particular, whenever the graph holds a cycle of length 3 or more, which
  \<^verbatim>\<open>add_dependency\<close> never rejects, \<^verbatim>\<open>has_closed_cycles\<close> returns \<^verbatim>\<open>True\<close> and
  \<^verbatim>\<open>get_init_order\<close> fails with \<open>CircularDependency\<close>.
\<close>

theorem has_closed_cycles_correct:
  assumes "graph_inv dg"
  shows "(has_closed_cycles dg \<longleftrightarrow> (\<exists>vs. directed_cycle dg vs)) \<and>
         ((\<exists>vs. 3 \<le> length vs \<and> directed_cycle dg vs)
            \<longrightarrow> has_closed_cycles dg \<and> get_init_order dg = Some (Inl CircularDependency))"
proof -
  have iff: "has_closed_cycles dg \<longleftrightarrow> (\<exists>vs. directed_cycle dg vs)"
    using assms by (rule has_closed_cycles_iff)
  have "has_closed_cycles dg \<Longrightarrow> get_init_order dg = Some (Inl CircularDependency)"
    by (simp add: get_init_order_def)
  then show ?thesis using iff by blast
qed

theorem has_closed_cycles_correct_witness:
  "graph_inv dg_abc \<and> 3 \<le> length [0::nat, 1, 2] \<and> directed_cycle dg_abc [0, 1, 2] \<and>
   has_closed_cycles dg_abc \<and> get_init_order dg_abc = Some (Inl CircularDependency)"
proof -
  have c: "3 \<le> length [0::nat, 1, 2] \<and> directed_cycle dg_abc [0, 1, 2]"
    by (simp add: directed_cycle_def dg_abc_eval)
  then show ?thesis
    using has_closed_cycles_correct[OF graph_inv_dg_abc] graph_inv_dg_abc by blast
qed

text \<open>
  Claim C3.  For every dependency graph without a directed cycle, \<^verbatim>\<open>get_init_order\<close>
  returns, and what it returns is the field names in the order \<open>order\<close> of their
  indices, where: \<open>order\<close> is the order produced by repeatedly selecting the first
  remaining node, in declaration order, that depends on no other remaining node;
  \<open>order\<close> lists every node exactly once; a node that depends on another stands
  strictly after it, by index and by name; and with no edge at all (so also with no
  node) the result is the declaration order unchanged.
\<close>

theorem get_init_order_topological:
  assumes "graph_inv dg" and "\<not> (\<exists>vs. directed_cycle dg vs)"
  shows "\<exists>order. get_init_order dg = Some (Inr (map (\<lambda>i. field_names dg ! i) order)) \<and>
           spec_init_order (graph dg) [0..<N dg] = Some order \<and>
           distinct order \<and> set order = {..<N dg} \<and>
           (\<forall>p q. p < length order \<and> q < length order \<and> graph dg (order ! p, order ! q) \<noteq> 0
                    \<longrightarrow> q < p) \<and>
           (\<forall>a b. edge_present dg a b \<longrightarrow>
                    (\<exists>p q. q < p \<and> p < length order \<and>
                            field_names dg ! (order ! p) = a \<and> field_names dg ! (order ! q) = b)) \<and>
           ((\<forall>i j. graph dg (i, j) = 0) \<longrightarrow>
              order = [0..<N dg] \<and> get_init_order dg = Some (Inr (field_names dg)))"
proof -
  have ac: "\<not> has_closed_cycles dg" using assms by (simp add: has_closed_cycles_iff)
  from get_init_order_acyclic[OF assms(1) ac]
  obtain order where o: "spec_init_order (graph dg) [0..<N dg] = Some order"
    and g: "get_init_order dg = Some (Inr (map (\<lambda>i. field_names dg ! i) order))"
    by blast
  have d: "distinct order" using o by (rule spec_init_order_distinct)
  have s: "set order = {..<N dg}" using spec_init_order_set[OF o] by (simp add: atLeast0LessThan)
  have diag: "\<And>i. graph dg (i, i) = 0" using assms(1) unfolding graph_inv_def by blast
  have topo: "q < p" if pq: "p < length order" "q < length order"
    and e: "graph dg (order ! p, order ! q) \<noteq> 0" for p q
  proof (rule ccontr)
    assume "\<not> q < p"
    then consider "q = p" | "p < q" by linarith
    then show False
    proof cases
      case 1
      then show ?thesis using e diag by simp
    next
      case 2
      have split: "order = take p order @ order ! p # drop (Suc p) order"
        using pq(1) by (rule id_take_nth_drop)
      have "order ! q \<in> set (drop (Suc p) order)"
        using 2 pq(2) by (auto simp: in_set_conv_nth intro!: exI[of _ "q - Suc p"])
      then have "graph dg (order ! p, order ! q) = 0"
        using spec_init_order_topological[of "graph dg" "[0..<N dg]" "take p order" "order ! p"
            "drop (Suc p) order" "order ! q"] o split by simp
      then show ?thesis using e by simp
    qed
  qed
  have names: "\<exists>p q. q < p \<and> p < length order \<and>
      field_names dg ! (order ! p) = a \<and> field_names dg ! (order ! q) = b"
    if ep: "edge_present dg a b" for a b
  proof -
    from ep obtain ai bi where k: "key_map dg a = Some ai" "key_map dg b = Some bi"
      and e: "graph dg (ai, bi) \<noteq> 0"
      by (auto simp: edge_present_def split: option.splits)
    have ai: "ai < N dg" "field_names dg ! ai = a" using key_map_Some[OF assms(1) k(1)] by auto
    have bi: "bi < N dg" "field_names dg ! bi = b" using key_map_Some[OF assms(1) k(2)] by auto
    obtain p where p: "p < length order" "order ! p = ai"
      using ai(1) s by (metis in_set_conv_nth lessThan_iff)
    obtain q where q: "q < length order" "order ! q = bi"
      using bi(1) s by (metis in_set_conv_nth lessThan_iff)
    have "q < p" using topo[OF p(1) q(1)] e p(2) q(2) by simp
    then show ?thesis using p q ai(2) bi(2) by blast
  qed
  have none: "order = [0..<N dg] \<and> get_init_order dg = Some (Inr (field_names dg))"
    if z: "\<forall>i j. graph dg (i, j) = 0"
  proof -
    have "spec_init_order (graph dg) [0..<N dg] = Some [0..<N dg]"
      using z by (intro spec_init_order_no_edges) simp_all
    then have eq: "order = [0..<N dg]" using o by simp
    have "N dg = length (field_names dg)" using assms(1) by (simp add: graph_inv_def)
    then have "map (\<lambda>i. field_names dg ! i) [0..<N dg] = field_names dg"
      by (simp add: map_nth)
    then show ?thesis using eq g by simp
  qed
  show ?thesis using g o d s topo names none by blast
qed

theorem get_init_order_topological_witness:
  "graph_inv dg_small \<and> \<not> (\<exists>vs. directed_cycle dg_small vs) \<and>
   get_init_order dg_small = Some (Inr [''d'', ''b'', ''a'', ''c''])"
proof -
  from get_init_order_topological[OF graph_inv_dg_small dg_small_acyclic]
  obtain order where g: "get_init_order dg_small = Some (Inr (map (\<lambda>i. field_names dg_small ! i) order))"
    and o: "spec_init_order (graph dg_small) [0..<N dg_small] = Some order"
    by blast
  have "order = [3, 1, 0, 2]" using o unfolding dg_small_spec_order by simp
  then have "get_init_order dg_small = Some (Inr [''d'', ''b'', ''a'', ''c''])"
    using g by (simp add: dg_small_eval)
  then show ?thesis using graph_inv_dg_small dg_small_acyclic by blast
qed


section \<open>Specification generation: the loop over the fields\<close>

lemma generate_step_plain:
  assumes "field_metadata f = NoMetadata \<or> field_metadata f = Metadata RegularField"
  shows "generate_step i f st = Inr (st\<lparr>
      special_fields := special_fields st @ [field_name f],
      field_descriptors := AList.update (field_name f)
         (case field_metadata f of NoMetadata \<Rightarrow> None | Metadata v \<Rightarrow> Some v) (field_descriptors st),
      fitting_fields_acc := fitting_fields_acc st @ [field_name f],
      default_resolvers_acc := default_resolvers_acc st @ [regular_default f] \<rparr>)"
  using assms by (auto simp: generate_step_def get_special_fitting_field_def Let_def)

lemma generate_step_bounded:
  assumes "field_metadata f = Metadata (BoundedField mn mx)"
  shows "generate_step i f st = Inr (st\<lparr>
      special_fields := special_fields st @ [field_name f],
      field_descriptors := AList.update (field_name f) (Some (BoundedField mn mx)) (field_descriptors st),
      set_lower_bounds := (if min_finite mn mx then AList.update i mn (set_lower_bounds st)
                           else set_lower_bounds st),
      set_upper_bounds := (if max_finite mn mx then AList.update i mx (set_upper_bounds st)
                           else set_upper_bounds st),
      fitting_fields_acc := fitting_fields_acc st @ [field_name f],
      default_resolvers_acc := default_resolvers_acc st
          @ [FixedDefaultResolver (resolve_default mn mx (field_default f))] \<rparr>)"
  using assms by (simp add: generate_step_def get_special_fitting_field_def Let_def)

lemma generate_step_const:
  assumes "field_metadata f = Metadata (ConstField v)"
  shows "generate_step i f st = Inr (st\<lparr>
      special_fields := special_fields st @ [field_name f],
      field_descriptors := AList.update (field_name f) (Some (ConstField v)) (field_descriptors st),
      default_resolvers_acc := default_resolvers_acc st @ [FixedDefaultResolver v] \<rparr>)"
  using assms by (simp add: generate_step_def get_special_fitting_field_def Let_def)

lemma generate_step_same_as:
  assumes "field_metadata f = Metadata (SameAsField tgt)"
  shows "generate_step i f st =
     (case add_dependency (field_name f) tgt (depgraph st) of
        (Inl e, _) \<Rightarrow> Inl e
      | (Inr _, dg) \<Rightarrow> Inr (st\<lparr>
          special_fields := special_fields st @ [field_name f],
          field_descriptors := AList.update (field_name f) (Some (SameAsField tgt)) (field_descriptors st),
          depgraph := dg,
          dep_resolver_map := AList.update (field_name f) (DependentResolver (field_name f) tgt)
                                (dep_resolver_map st),
          default_resolvers_acc := default_resolvers_acc st
              @ [Dependent (DependentResolver (field_name f) tgt)] \<rparr>))"
  using assms by (simp add: generate_step_def get_special_fitting_field_def Let_def split: prod.splits sum.splits)

lemma generate_step_other:
  "field_metadata f = Metadata OtherField \<Longrightarrow> generate_step i f st = Inl NotImplementedError"
  "field_metadata f = InvalidMetadata \<Longrightarrow> generate_step i f st = Inl AssertionError"
  by (simp_all add: generate_step_def get_special_fitting_field_def Let_def)

lemma kinds_exclusive:
  "is_fitting f \<Longrightarrow> \<not> is_const f \<and> \<not> is_same_as f"
  "is_const f \<Longrightarrow> \<not> is_fitting f \<and> \<not> is_same_as f"
  "is_same_as f \<Longrightarrow> \<not> is_fitting f \<and> \<not> is_const f"
  by (auto simp: is_fitting_def is_const_def is_same_as_def split: metadata.splits FittingField.splits)

lemma step_projections:
  assumes "generate_step i f st = Inr st1"
  shows "special_fields st1 = special_fields st @ [field_name f]"
    and "fitting_fields_acc st1 = fitting_fields_acc st @ (if is_fitting f then [field_name f] else [])"
    and "default_resolvers_acc st1 = default_resolvers_acc st @ [resolver_of f]"
    and "is_fitting f \<or> is_const f \<or> is_same_as f"
proof -
  have "special_fields st1 = special_fields st @ [field_name f] \<and>
    fitting_fields_acc st1 = fitting_fields_acc st @ (if is_fitting f then [field_name f] else []) \<and>
    default_resolvers_acc st1 = default_resolvers_acc st @ [resolver_of f] \<and>
    (is_fitting f \<or> is_const f \<or> is_same_as f)"
  proof (cases "field_metadata f")
    case NoMetadata
    then show ?thesis using assms generate_step_plain[of f i st]
      by (auto simp: is_fitting_def resolver_of_def)
  next
    case InvalidMetadata
    then show ?thesis using assms generate_step_other(2)[of f i st] by simp
  next
    case (Metadata v)
    show ?thesis
    proof (cases v)
      case (BoundedField mn mx)
      then show ?thesis using assms Metadata generate_step_bounded[of f mn mx i st]
        by (auto simp: is_fitting_def resolver_of_def)
    next
      case (ConstField c)
      then show ?thesis using assms Metadata generate_step_const[of f c i st]
        by (auto simp: is_fitting_def is_const_def resolver_of_def)
    next
      case (SameAsField tgt)
      then show ?thesis using assms Metadata generate_step_same_as[of f tgt i st]
        by (auto simp: is_fitting_def is_same_as_def resolver_of_def split: prod.splits sum.splits)
    next
      case RegularField
      then show ?thesis using assms Metadata generate_step_plain[of f i st]
        by (auto simp: is_fitting_def resolver_of_def)
    next
      case OtherField
      then show ?thesis using assms Metadata generate_step_other(1)[of f i st] by simp
    qed
  qed
  then show "special_fields st1 = special_fields st @ [field_name f]"
    and "fitting_fields_acc st1 = fitting_fields_acc st @ (if is_fitting f then [field_name f] else [])"
    and "default_resolvers_acc st1 = default_resolvers_acc st @ [resolver_of f]"
    and "is_fitting f \<or> is_const f \<or> is_same_as f"
    by blast+
qed

lemma step_graph_other:
  assumes "generate_step i f st = Inr st1" "\<not> is_same_as f"
  shows "depgraph st1 = depgraph st \<and> dep_resolver_map st1 = dep_resolver_map st"
proof (cases "field_metadata f")
  case NoMetadata
  then show ?thesis using assms generate_step_plain[of f i st] by auto
next
  case InvalidMetadata
  then show ?thesis using assms generate_step_other(2)[of f i st] by simp
next
  case (Metadata v)
  show ?thesis
  proof (cases v)
    case (BoundedField mn mx)
    then show ?thesis using assms Metadata generate_step_bounded[of f mn mx i st] by auto
  next
    case (ConstField c)
    then show ?thesis using assms Metadata generate_step_const[of f c i st] by auto
  next
    case (SameAsField tgt)
    then show ?thesis using assms(2) Metadata by (simp add: is_same_as_def)
  next
    case RegularField
    then show ?thesis using assms Metadata generate_step_plain[of f i st] by auto
  next
    case OtherField
    then show ?thesis using assms Metadata generate_step_other(1)[of f i st] by simp
  qed
qed

lemma step_graph_same_as:
  assumes "generate_step i f st = Inr st1" "field_metadata f = Metadata (SameAsField tgt)"
  shows "\<exists>b. add_dependency (field_name f) tgt (depgraph st) = (Inr b, depgraph st1)"
    and "dep_resolver_map st1 =
           AList.update (field_name f) (DependentResolver (field_name f) tgt) (dep_resolver_map st)"
  using assms generate_step_same_as[OF assms(2), of i st]
  by (auto split: prod.splits sum.splits)

lemma loop_projections:
  "generate_loop i fs st = Inr st' \<Longrightarrow>
     special_fields st' = special_fields st @ map field_name fs \<and>
     fitting_fields_acc st' = fitting_fields_acc st @ map field_name (filter is_fitting fs) \<and>
     default_resolvers_acc st' = default_resolvers_acc st @ map resolver_of fs \<and>
     (\<forall>f \<in> set fs. is_fitting f \<or> is_const f \<or> is_same_as f)"
proof (induction fs arbitrary: i st)
  case Nil
  then show ?case by simp
next
  case (Cons f fs)
  then obtain st1 where s1: "generate_step i f st = Inr st1" and r: "generate_loop (Suc i) fs st1 = Inr st'"
    by (auto split: sum.splits)
  note p = step_projections[OF s1]
  from Cons.IH[OF r] p show ?case by auto
qed

lemma kind_counts:
  "\<forall>f \<in> set fs. is_fitting f \<or> is_const f \<or> is_same_as f \<Longrightarrow>
   length (filter is_fitting fs) + length (filter is_const fs) + length (filter is_same_as fs) = length fs"
proof (induction fs)
  case Nil
  then show ?case by simp
next
  case (Cons f fs)
  have ih: "length (filter is_fitting fs) + length (filter is_const fs)
      + length (filter is_same_as fs) = length fs"
    using Cons by simp
  have "is_fitting f \<or> is_const f \<or> is_same_as f" using Cons.prems by simp
  then consider (a) "is_fitting f" "\<not> is_const f" "\<not> is_same_as f"
    | (b) "is_const f" "\<not> is_fitting f" "\<not> is_same_as f"
    | (c) "is_same_as f" "\<not> is_fitting f" "\<not> is_const f"
    using kinds_exclusive[of f] by blast
  then show ?case using ih by cases simp_all
qed

subsection \<open>Edges created by the loop\<close>

lemma add_dependency_static:
  "N (snd (add_dependency a b dg)) = N dg"
  "field_names (snd (add_dependency a b dg)) = field_names dg"
  "key_map (snd (add_dependency a b dg)) = key_map dg"
  by (simp_all add: add_dependency_def Let_def split: option.splits)

lemma add_dependency_graph_mono:
  "graph dg (i, j) = - 1 \<Longrightarrow> graph (snd (add_dependency a b dg)) (i, j) = - 1"
  by (simp add: add_dependency_def Let_def split: option.splits)

lemma edge_present_mono:
  assumes "graph_inv dg" "edge_present dg a b"
  shows "edge_present (snd (add_dependency c d dg)) a b"
proof -
  from assms(2) obtain ai bi where k: "key_map dg a = Some ai" "key_map dg b = Some bi"
    and e: "graph dg (ai, bi) \<noteq> 0"
    by (auto simp: edge_present_def split: option.splits)
  then have "graph dg (ai, bi) = - 1" using assms(1) unfolding graph_inv_def by blast
  then have "graph (snd (add_dependency c d dg)) (ai, bi) = - 1" by (rule add_dependency_graph_mono)
  then show ?thesis using k by (simp add: edge_present_def add_dependency_static)
qed

lemma edge_present_new:
  assumes "add_dependency a b dg = (Inr r, dg')"
  shows "edge_present dg' a b"
proof -
  have ne: "a \<noteq> b" using assms by (auto simp: add_dependency_def)
  obtain ai where ai: "key_map dg a = Some ai"
    using assms ne by (cases "key_map dg a") (auto simp: add_dependency_def)
  obtain bi where bi: "key_map dg b = Some bi"
    using assms ne ai by (cases "key_map dg b") (auto simp: add_dependency_def)
  have "graph dg' (ai, bi) = - 1 \<and> key_map dg' = key_map dg"
    using assms unfolding add_dependency_cases[OF ne ai bi] by (auto split: if_splits)
  then show ?thesis using ai bi by (simp add: edge_present_def)
qed

lemma loop_graph:
  assumes "generate_loop i fs st = Inr st'" "graph_inv (depgraph st)"
  shows "graph_inv (depgraph st') \<and> field_names (depgraph st') = field_names (depgraph st) \<and>
         (\<forall>a b. edge_present (depgraph st) a b \<longrightarrow> edge_present (depgraph st') a b) \<and>
         (\<forall>f \<in> set fs. \<forall>tgt. field_metadata f = Metadata (SameAsField tgt)
              \<longrightarrow> edge_present (depgraph st') (field_name f) tgt)"
  using assms
proof (induction fs arbitrary: i st)
  case Nil
  then show ?case by simp
next
  case (Cons f fs)
  then obtain st1 where s1: "generate_step i f st = Inr st1" and r: "generate_loop (Suc i) fs st1 = Inr st'"
    by (auto split: sum.splits)
  have step: "graph_inv (depgraph st1) \<and> field_names (depgraph st1) = field_names (depgraph st) \<and>
      (\<forall>a b. edge_present (depgraph st) a b \<longrightarrow> edge_present (depgraph st1) a b) \<and>
      (\<forall>tgt. field_metadata f = Metadata (SameAsField tgt) \<longrightarrow> edge_present (depgraph st1) (field_name f) tgt)"
  proof (cases "is_same_as f")
    case False
    then have "depgraph st1 = depgraph st" using step_graph_other[OF s1] by simp
    then show ?thesis using Cons.prems(2) False by (auto simp: is_same_as_def)
  next
    case True
    then obtain tgt where m: "field_metadata f = Metadata (SameAsField tgt)"
      by (auto simp: is_same_as_def split: metadata.splits FittingField.splits)
    from step_graph_same_as(1)[OF s1 m]
    obtain b where a: "add_dependency (field_name f) tgt (depgraph st) = (Inr b, depgraph st1)" by blast
    then have eq: "depgraph st1 = snd (add_dependency (field_name f) tgt (depgraph st))" by simp
    have "graph_inv (depgraph st1)" unfolding eq by (rule graph_inv_add_dependency[OF Cons.prems(2)])
    moreover have "field_names (depgraph st1) = field_names (depgraph st)"
      unfolding eq by (rule add_dependency_static)
    moreover have "\<forall>a b. edge_present (depgraph st) a b \<longrightarrow> edge_present (depgraph st1) a b"
      unfolding eq using edge_present_mono[OF Cons.prems(2)] by blast
    moreover have "edge_present (depgraph st1) (field_name f) tgt" using a by (rule edge_present_new)
    ultimately show ?thesis using m by simp
  qed
  from Cons.IH[OF r] step show ?case by auto
qed


section \<open>Specification generation: order and result\<close>

lemma init_order_names:
  assumes inv: "graph_inv dg" and ac: "\<not> has_closed_cycles dg"
    and dn: "distinct (field_names dg)"
  shows "\<exists>res. get_init_order dg = Some (Inr res) \<and> distinct res \<and>
           set res = set (field_names dg) \<and>
           (\<forall>a b. edge_present dg a b \<longrightarrow> (\<exists>pre mid post. res = pre @ b # mid @ a # post))"
proof -
  let ?nm = "\<lambda>i. field_names dg ! i"
  from get_init_order_acyclic[OF inv ac]
  obtain order where o: "spec_init_order (graph dg) [0..<N dg] = Some order"
    and g: "get_init_order dg = Some (Inr (map ?nm order))"
    by blast
  have N: "N dg = length (field_names dg)" using inv by (simp add: graph_inv_def)
  have d: "distinct order" using o by (rule spec_init_order_distinct)
  have s: "set order = {..<N dg}" using spec_init_order_set[OF o] by (simp add: atLeast0LessThan)
  have inj: "inj_on ?nm (set order)"
    unfolding s N using dn by (auto simp: inj_on_def nth_eq_iff_index_eq)
  have d': "distinct (map ?nm order)" using d inj by (simp add: distinct_map)
  have "set (map ?nm order) = ?nm ` {..<length (field_names dg)}" using s N by simp
  also have "\<dots> = set (field_names dg)" by (auto simp: set_conv_nth)
  finally have s': "set (map ?nm order) = set (field_names dg)" .
  have topo: "\<exists>pre mid post. map ?nm order = pre @ b # mid @ a # post"
    if ep: "edge_present dg a b" for a b
  proof -
    from ep obtain ai bi where k: "key_map dg a = Some ai" "key_map dg b = Some bi"
      and e: "graph dg (ai, bi) \<noteq> 0"
      by (auto simp: edge_present_def split: option.splits)
    have ai: "ai < N dg" "?nm ai = a" using key_map_Some[OF inv k(1)] by auto
    have bi: "bi < N dg" "?nm bi = b" using key_map_Some[OF inv k(2)] by auto
    have ne: "ai \<noteq> bi" using e inv unfolding graph_inv_def by blast
    have "ai \<in> set order" using ai(1) s by simp
    then obtain pre post where sp: "order = pre @ ai # post" by (meson split_list)
    have "bi \<notin> set post"
      using spec_init_order_topological[of "graph dg" "[0..<N dg]" pre ai post bi] o sp e by auto
    moreover have "bi \<in> set order" using bi(1) s by simp
    ultimately have "bi \<in> set pre" using sp ne by auto
    then obtain p1 p2 where "pre = p1 @ bi # p2" by (meson split_list)
    then have "map ?nm order = map ?nm p1 @ b # map ?nm p2 @ a # map ?nm post"
      using sp ai(2) bi(2) by simp
    then show ?thesis by blast
  qed
  show ?thesis using g d' s' topo by blast
qed

lemma filter_keeps_order:
  assumes "xs = pre @ b # mid @ a # post" "P a" "P b"
  shows "\<exists>pre' mid' post'. filter P xs = pre' @ b # mid' @ a # post'"
proof -
  have "filter P xs = filter P pre @ b # filter P mid @ a # filter P post"
    using assms by simp
  then show ?thesis by blast
qed

lemma no_edges_when_zero:
  assumes "graph_inv dg" "dependency_count dg = 0"
  shows "\<not> edge_present dg a b"
proof -
  have "\<forall>i j. graph dg (i, j) = 0"
    using assms unfolding graph_inv_def dependency_count_def by blast
  then show ?thesis by (simp add: edge_present_def split: option.splits)
qed

lemma edge_present_count:
  assumes "graph_inv dg" "edge_present dg a b"
  shows "dependency_count dg > 0"
  using no_edges_when_zero[OF assms(1), of a b] assms(2) by auto

lemma order_fields_success:
  assumes of: "order_fields st = Some (Inr (io, drs))"
    and inv: "graph_inv (depgraph st)"
    and dn: "distinct (field_names (depgraph st))"
    and sub: "set (special_fields st) \<subseteq> set (field_names (depgraph st))"
  shows "set io = set (special_fields st) \<and> length io = length (special_fields st) \<and>
         (distinct (special_fields st) \<longrightarrow> distinct io) \<and>
         (\<forall>a b. edge_present (depgraph st) a b \<and> a \<in> set (special_fields st)
                  \<and> b \<in> set (special_fields st)
              \<longrightarrow> (\<exists>pre mid post. io = pre @ b # mid @ a # post)) \<and>
         drs = (if dependency_count (depgraph st) > 0
                then get_dep_resolvers (dep_resolver_map st) io else [])"
proof (cases "dependency_count (depgraph st) > 0")
  case False
  then have "io = special_fields st" "drs = []" using of by (simp_all add: order_fields_def)
  moreover have "\<not> edge_present (depgraph st) a b" for a b
    using no_edges_when_zero[OF inv] False by simp
  ultimately show ?thesis using False by simp
next
  case True
  have ac: "\<not> has_closed_cycles (depgraph st)"
    using of True by (auto simp: order_fields_def split: if_splits)
  from init_order_names[OF inv ac dn]
  obtain res where g: "get_init_order (depgraph st) = Some (Inr res)" and d: "distinct res"
    and s: "set res = set (field_names (depgraph st))"
    and topo: "\<And>a b. edge_present (depgraph st) a b \<Longrightarrow> \<exists>pre mid post. res = pre @ b # mid @ a # post"
    by blast
  let ?P = "\<lambda>f. f \<in> set (special_fields st)"
  have io: "io = filter ?P res" and len: "length io = length (special_fields st)"
    and drs: "drs = get_dep_resolvers (dep_resolver_map st) io"
    using of True ac g by (auto simp: order_fields_def Let_def split: if_splits)
  have "set io = set (special_fields st)" unfolding io using s sub by auto
  moreover have "distinct io" unfolding io using d by simp
  moreover have "\<exists>pre mid post. io = pre @ b # mid @ a # post"
    if "edge_present (depgraph st) a b" "?P a" "?P b" for a b
    unfolding io using filter_keeps_order[of res _ b _ a _ ?P] topo[OF that(1)] that(2,3) by blast
  ultimately show ?thesis using len drs True by auto
qed

lemma generate_success:
  assumes "generate t = Some (Inr spec)"
  shows "\<exists>st. generate_loop 0 (filter field_init t) (initial_gen_state t) = Inr st \<and>
           order_fields st = Some (Inr (init_order spec, dep_resolvers spec)) \<and>
           special_param_count spec = length (special_fields st) \<and>
           fitting_params spec = fitting_fields_acc st \<and>
           fitting_param_count spec = length (fitting_fields_acc st) \<and>
           default_resolvers spec = default_resolvers_acc st \<and>
           fitting_fields spec = field_descriptors st \<and>
           process_bounds (set_lower_bounds st) (length (fitting_fields_acc st)) NegInf
             = Inr (lower_bounds spec) \<and>
           process_bounds (set_upper_bounds st) (length (fitting_fields_acc st)) PosInf
             = Inr (upper_bounds spec)"
proof (cases "generate_loop 0 (filter field_init t) (initial_gen_state t)")
  case (Inl e)
  then show ?thesis using assms by (simp add: generate_def)
next
  case (Inr st)
  show ?thesis
  proof (cases "order_fields st")
    case None
    then show ?thesis using assms Inr by (simp add: generate_def Let_def split: if_splits)
  next
    case (Some r)
    show ?thesis
    proof (cases r)
      case (Inl e)
      then show ?thesis using assms Inr Some by (simp add: generate_def Let_def split: if_splits)
    next
      case R: (Inr p)
      obtain io drs where p: "p = (io, drs)" by (cases p)
      show ?thesis
      proof (cases "process_bounds (set_lower_bounds st) (length (fitting_fields_acc st)) NegInf")
        case (Inl e)
        then show ?thesis using assms Inr Some R p by (simp add: generate_def Let_def split: if_splits)
      next
        case L: (Inr lo)
        show ?thesis
        proof (cases "process_bounds (set_upper_bounds st) (length (fitting_fields_acc st)) PosInf")
          case (Inl e)
          then show ?thesis using assms Inr Some R p L
            by (simp add: generate_def Let_def split: if_splits)
        next
          case U: (Inr up)
          have "length (default_resolvers_acc st) = length (special_fields st) \<and>
            spec = \<lparr> special_param_count = length (special_fields st),
              init_order = io, fitting_param_count = length (fitting_fields_acc st),
              fitting_params = fitting_fields_acc st, fitting_fields = field_descriptors st,
              default_resolvers = default_resolvers_acc st, lower_bounds = lo, upper_bounds = up,
              bounds = (case lo of None \<Rightarrow> Array0 NegInf | Some a \<Rightarrow> Array1 a,
                        case up of None \<Rightarrow> Array0 PosInf | Some a \<Rightarrow> Array1 a),
              dep_resolvers = drs \<rparr>"
            using assms Inr Some R p L U by (simp add: generate_def Let_def split: if_splits)
          then show ?thesis using Inr Some R p L U by simp
        qed
      qed
    qed
  qed
qed

lemma initial_state_facts:
  "graph_inv (depgraph (initial_gen_state t))"
  "field_names (depgraph (initial_gen_state t)) = map field_name t"
  "special_fields (initial_gen_state t) = []"
  "fitting_fields_acc (initial_gen_state t) = []"
  "default_resolvers_acc (initial_gen_state t) = []"
  "dep_resolver_map (initial_gen_state t) = []"
  by (simp_all add: initial_gen_state_def graph_inv_init) (simp add: DepGraph_init_def)


section \<open>Specification generation: the claims\<close>

lemma get_init_order_eval:
  assumes "graph_inv dg" "\<not> (\<exists>vs. directed_cycle dg vs)"
    and "spec_init_order (graph dg) [0..<N dg] = Some order"
  shows "\<not> has_closed_cycles dg"
    and "get_init_order dg = Some (Inr (map (\<lambda>i. field_names dg ! i) order))"
proof -
  show ac: "\<not> has_closed_cycles dg" using assms(1,2) by (simp add: has_closed_cycles_iff)
  from get_init_order_acyclic[OF assms(1) ac] assms(3)
  show "get_init_order dg = Some (Inr (map (\<lambda>i. field_names dg ! i) order))" by auto
qed

lemma add_ab: "add_dependency ''a'' ''b'' (DepGraph_init [''a'', ''b'']) = (Inr True, dg_ab)"
  by (simp add: dg_ab_def add_dependency_def DepGraph_init_def)

lemma add_ba: "add_dependency ''b'' ''a'' (DepGraph_init [''a'', ''b'']) = (Inr True, dg_ba)"
  by (simp add: dg_ba_def add_dependency_def DepGraph_init_def)

lemma dg_ab_acyclic: "\<not> (\<exists>vs. directed_cycle dg_ab vs)"
proof (rule acyclic_by_rank[where r = "\<lambda>i. if i = 0 then 1 else 0"])
  fix i j :: nat
  assume "graph dg_ab (i, j) \<noteq> 0"
  then have "(i, j) = (0, 1)" by (simp add: dg_ab_eval split: if_splits)
  then show "(if j = 0 then 1 else 0) < (if i = 0 then 1 else (0::nat))" by simp
qed

lemma dg_ba_acyclic: "\<not> (\<exists>vs. directed_cycle dg_ba vs)"
proof (rule acyclic_by_rank[where r = "\<lambda>i. if i = 0 then 0 else 1"])
  fix i j :: nat
  assume "graph dg_ba (i, j) \<noteq> 0"
  then have "(i, j) = (1, 0)" by (simp add: dg_ba_eval split: if_splits)
  then show "(if j = 0 then 0 else 1) < (if i = 0 then 0 else (1::nat))" by simp
qed

lemma dg_ab_order:
  "\<not> has_closed_cycles dg_ab" "get_init_order dg_ab = Some (Inr [''b'', ''a''])"
proof -
  have o: "spec_init_order (graph dg_ab) [0..<N dg_ab] = Some [1, 0]"
    by (simp add: dg_ab_eval spec_init_order.simps upt_rec)
  show "\<not> has_closed_cycles dg_ab"
    by (rule get_init_order_eval(1)[OF graph_inv_dg_ab dg_ab_acyclic o])
  show "get_init_order dg_ab = Some (Inr [''b'', ''a''])"
    using get_init_order_eval(2)[OF graph_inv_dg_ab dg_ab_acyclic o] by (simp add: dg_ab_eval)
qed

lemma dg_ba_order:
  "\<not> has_closed_cycles dg_ba" "get_init_order dg_ba = Some (Inr [''a'', ''b''])"
proof -
  have o: "spec_init_order (graph dg_ba) [0..<N dg_ba] = Some [0, 1]"
    by (simp add: dg_ba_eval spec_init_order.simps upt_rec)
  show "\<not> has_closed_cycles dg_ba"
    by (rule get_init_order_eval(1)[OF graph_inv_dg_ba dg_ba_acyclic o])
  show "get_init_order dg_ba = Some (Inr [''a'', ''b''])"
    using get_init_order_eval(2)[OF graph_inv_dg_ba dg_ba_acyclic o] by (simp add: dg_ba_eval)
qed

lemma dg_ab_count: "dependency_count dg_ab = 1" "dependency_count dg_ba = 1"
  by (simp_all add: dependency_count_def dg_ab_eval dg_ba_eval)

lemma generate_dc_ab: "generate dc_ab = Some (Inr spec_ab)"
proof -
  have loop: "generate_loop 0 (filter field_init dc_ab) (initial_gen_state dc_ab) =
      Inr \<lparr> depgraph = dg_ab,
            field_descriptors = [(''a'', Some (SameAsField ''b'')), (''b'', None)],
            set_lower_bounds = [], set_upper_bounds = [],
            default_resolvers_acc = [Dependent (DependentResolver ''a'' ''b''), UnsetDefaultResolver],
            special_fields = [''a'', ''b''],
            fitting_fields_acc = [''b''],
            dep_resolver_map = [(''a'', DependentResolver ''a'' ''b'')] \<rparr>"
    by (simp add: dc_ab_def same_as_field_def plain_field_def initial_gen_state_def
        generate_step_def get_special_fitting_field_def regular_default_def add_ab Let_def)
  show ?thesis
    unfolding generate_def loop
    by (simp add: order_fields_def dg_ab_order dg_ab_count get_dep_resolvers_def
        List.map_filter_def process_bounds_def spec_ab_def Let_def)
qed

lemma pin_simps:
  "init_order (pin fs cls) = init_order fs"
  "default_resolvers (pin fs cls) = default_resolvers fs"
  "fitting_param_count (pin fs cls) = fitting_param_count fs"
  "fitting_params (pin fs cls) = fitting_params fs"
  "dep_resolvers (pin fs cls) = dep_resolvers fs"
  "clss (pin fs cls) = cls"
  by (simp_all add: pin_def FitSpecBase.defs FitSpec.defs)

lemma create_default_dc_ab:
  "create_default_fit_instance (pin spec_ab dc_ab) = Inl (KeyError ''b'')"
  by (simp add: create_default_fit_instance_def pin_simps spec_ab_def dependent_get_def dict_get_def)

lemma generate_dc_noninit: "generate dc_noninit = Some (Inr spec_noninit)"
proof -
  have loop: "generate_loop 0 (filter field_init dc_noninit) (initial_gen_state dc_noninit) =
      Inr \<lparr> depgraph = dg_ba,
            field_descriptors = [(''b'', Some (SameAsField ''a''))],
            set_lower_bounds = [], set_upper_bounds = [],
            default_resolvers_acc = [Dependent (DependentResolver ''b'' ''a'')],
            special_fields = [''b''],
            fitting_fields_acc = [],
            dep_resolver_map = [(''b'', DependentResolver ''b'' ''a'')] \<rparr>"
    by (simp add: dc_noninit_def same_as_field_def plain_field_def initial_gen_state_def
        generate_step_def get_special_fitting_field_def add_ba Let_def)
  show ?thesis
    unfolding generate_def loop
    by (simp add: order_fields_def dg_ba_order dg_ab_count get_dep_resolvers_def
        List.map_filter_def process_bounds_def spec_noninit_def Let_def)
qed

lemma declares_same_as_iff:
  "declares_same_as t a b \<longleftrightarrow>
     (\<exists>f \<in> set (filter field_init t). field_name f = a \<and> field_metadata f = Metadata (SameAsField b))"
  by (auto simp: declares_same_as_def list_ex_iff)

text \<open>
  Claim C9, amended.  For every dataclass (with its field names distinct) whose
  specification generation succeeds: the number of fitting parameters plus the number
  of constant fields plus the number of same-as fields, counted over the fields with
  \<^verbatim>\<open>init=True\<close>, is \<^verbatim>\<open>special_param_count\<close>; \<^verbatim>\<open>init_order\<close> is a permutation of the names
  of those fields; and every same-as field whose target is itself such a field stands
  strictly after its target in \<^verbatim>\<open>init_order\<close>.
\<close>

theorem generate_invariants:
  assumes dn: "distinct (map field_name t)" and gen: "generate t = Some (Inr spec)"
  shows "length (fitting_params spec) + length (filter is_const (filter field_init t))
           + length (filter is_same_as (filter field_init t)) = special_param_count spec \<and>
         mset (init_order spec) = mset (map field_name (filter field_init t)) \<and>
         (\<forall>a b. declares_same_as t a b \<and> b \<in> set (map field_name (filter field_init t))
            \<longrightarrow> (\<exists>pre mid post. init_order spec = pre @ b # mid @ a # post))"
proof -
  let ?fs = "filter field_init t"
  from generate_success[OF gen] obtain st where
    loop: "generate_loop 0 ?fs (initial_gen_state t) = Inr st"
    and ord: "order_fields st = Some (Inr (init_order spec, dep_resolvers spec))"
    and cnt: "special_param_count spec = length (special_fields st)"
    and fit: "fitting_params spec = fitting_fields_acc st"
    by blast
  from loop_projections[OF loop] have
    sp: "special_fields st = map field_name ?fs"
    and ff: "fitting_fields_acc st = map field_name (filter is_fitting ?fs)"
    and kinds: "\<forall>f \<in> set ?fs. is_fitting f \<or> is_const f \<or> is_same_as f"
    by (simp_all add: initial_state_facts)
  from loop_graph[OF loop initial_state_facts(1)] have
    inv: "graph_inv (depgraph st)"
    and nm: "field_names (depgraph st) = map field_name t"
    and edges: "\<And>f tgt. f \<in> set ?fs \<Longrightarrow> field_metadata f = Metadata (SameAsField tgt)
        \<Longrightarrow> edge_present (depgraph st) (field_name f) tgt"
    by (simp_all add: initial_state_facts(2))
  have dsp: "distinct (special_fields st)" unfolding sp using dn by (rule distinct_map_filter)
  have sub: "set (special_fields st) \<subseteq> set (field_names (depgraph st))"
    unfolding sp nm by auto
  have dn': "distinct (field_names (depgraph st))" unfolding nm by (rule dn)
  note os = order_fields_success[OF ord inv dn' sub]
  have c1: "length (fitting_params spec) + length (filter is_const ?fs)
      + length (filter is_same_as ?fs) = special_param_count spec"
    using kind_counts[OF kinds] by (simp add: fit ff cnt sp)
  have c2: "mset (init_order spec) = mset (map field_name ?fs)"
    using os dsp sp by (metis set_eq_iff_mset_eq_distinct)
  have c3: "\<exists>pre mid post. init_order spec = pre @ b # mid @ a # post"
    if d: "declares_same_as t a b" and b: "b \<in> set (map field_name ?fs)" for a b
  proof -
    from d obtain f where f: "f \<in> set ?fs" "field_name f = a"
      "field_metadata f = Metadata (SameAsField b)"
      unfolding declares_same_as_iff by blast
    have "edge_present (depgraph st) a b" using edges[OF f(1,3)] f(2) by simp
    moreover have "a \<in> set (special_fields st)" unfolding sp using f(1,2) by force
    moreover have "b \<in> set (special_fields st)" unfolding sp using b .
    ultimately show ?thesis using os by blast
  qed
  show ?thesis using c1 c2 c3 by blast
qed

theorem generate_invariants_witness:
  "distinct (map field_name dc_ab) \<and> generate dc_ab = Some (Inr spec_ab) \<and>
   declares_same_as dc_ab ''a'' ''b'' \<and>
   length (fitting_params spec_ab) + length (filter is_const (filter field_init dc_ab))
     + length (filter is_same_as (filter field_init dc_ab)) = special_param_count spec_ab \<and>
   mset (init_order spec_ab) = mset (map field_name (filter field_init dc_ab)) \<and>
   (\<exists>pre mid post. init_order spec_ab = pre @ ''b'' # mid @ ''a'' # post)"
proof -
  have d: "distinct (map field_name dc_ab)"
    by (simp add: dc_ab_def same_as_field_def plain_field_def)
  have s: "declares_same_as dc_ab ''a'' ''b'' \<and> ''b'' \<in> set (map field_name (filter field_init dc_ab))"
    by (simp add: declares_same_as_def dc_ab_def same_as_field_def plain_field_def)
  show ?thesis
    using generate_invariants[OF d generate_dc_ab] d s generate_dc_ab by blast
qed

text \<open>
  Claim C9, as stated, fails: field \<open>b\<close> is declared the same as field \<open>a\<close>, which is
  declared with \<^verbatim>\<open>init=False\<close>.  Generation succeeds and \<^verbatim>\<open>init_order\<close> is \<open>[b]\<close>: the
  target does not occur in it, so \<open>b\<close> does not stand after it.
\<close>

theorem generate_invariants_counterexample:
  "distinct (map field_name dc_noninit) \<and> generate dc_noninit = Some (Inr spec_noninit) \<and>
   declares_same_as dc_noninit ''b'' ''a'' \<and> ''a'' \<notin> set (init_order spec_noninit)"
  using generate_dc_noninit
  by (simp add: declares_same_as_def dc_noninit_def same_as_field_def plain_field_def spec_noninit_def)

text \<open>
  Claim C2, evaluated where the code departs from it: for the dataclass with
  \<open>a\<close> declared the same as \<open>b\<close> and \<open>b\<close> a plain field declared after it, generation
  succeeds with \<^verbatim>\<open>init_order\<close> \<open>[b, a]\<close> while \<^verbatim>\<open>default_resolvers\<close> stays in declaration
  order, so the resolver paired with \<open>b\<close> is the one of \<open>a\<close>: it looks \<open>b\<close> up in the
  still empty mapping and \<^verbatim>\<open>create_default_fit_instance\<close> raises \<^verbatim>\<open>KeyError\<close>.
\<close>

theorem create_default_misaligned:
  "generate dc_ab = Some (Inr spec_ab) \<and>
   init_order spec_ab = [''b'', ''a''] \<and>
   default_resolvers spec_ab = [Dependent (DependentResolver ''a'' ''b''), UnsetDefaultResolver] \<and>
   create_default_fit_instance (pin spec_ab dc_ab) = Inl (KeyError ''b'')"
  using generate_dc_ab create_default_dc_ab by (simp add: spec_ab_def)

lemma generate_dc_cx: "generate dc_cx = Some (Inl IndexError)"
proof -
  have loop: "generate_loop 0 (filter field_init dc_cx) (initial_gen_state dc_cx) =
      Inr \<lparr> depgraph = DepGraph_init [''c'', ''x''],
            field_descriptors = [(''c'', Some (ConstField (Fin 7))),
                                 (''x'', Some (BoundedField (Fin 0) (Fin 1)))],
            set_lower_bounds = [(1, Fin 0)], set_upper_bounds = [(1, Fin 1)],
            default_resolvers_acc = [FixedDefaultResolver (Fin 7), FixedDefaultResolver (Fin (1 / 2))],
            special_fields = [''c'', ''x''],
            fitting_fields_acc = [''x''],
            dep_resolver_map = [] \<rparr>"
    by (simp add: dc_cx_def const_field_def bounded_field_def initial_gen_state_def
        generate_step_def get_special_fitting_field_def min_finite_def max_finite_def
        resolve_default_def contains_def Let_def)
  show ?thesis
    unfolding generate_def loop
    by (simp add: order_fields_def dependency_count_def DepGraph_init_def process_bounds_def Let_def)
qed

lemma generate_dc_cxy: "generate dc_cxy = Some (Inr spec_cxy)"
proof -
  have loop: "generate_loop 0 (filter field_init dc_cxy) (initial_gen_state dc_cxy) =
      Inr \<lparr> depgraph = DepGraph_init [''c'', ''x'', ''y''],
            field_descriptors = [(''c'', Some (ConstField (Fin 7))),
                                 (''x'', Some (BoundedField (Fin 0) (Fin 1))),
                                 (''y'', Some RegularField)],
            set_lower_bounds = [(1, Fin 0)], set_upper_bounds = [(1, Fin 1)],
            default_resolvers_acc = [FixedDefaultResolver (Fin 7), FixedDefaultResolver (Fin (1 / 2)),
                                     FixedDefaultResolver (Fin 1)],
            special_fields = [''c'', ''x'', ''y''],
            fitting_fields_acc = [''x'', ''y''],
            dep_resolver_map = [] \<rparr>"
    by (simp add: dc_cxy_def const_field_def bounded_field_def regular_field_def initial_gen_state_def
        generate_step_def get_special_fitting_field_def min_finite_def max_finite_def
        resolve_default_def contains_def regular_default_def Let_def)
  show ?thesis
    unfolding generate_def loop
    by (simp add: order_fields_def dependency_count_def DepGraph_init_def process_bounds_def
        spec_cxy_def Let_def)
qed

text \<open>
  Claim C1, evaluated where the code departs from it: a bound is stored under the
  index of the field among all constructor fields, not among the fitting fields.  With
  a constant field \<open>c\<close> before the field \<open>x\<close> bounded by 0 and 1, generation raises
  \<^verbatim>\<open>IndexError\<close>; with a regular field \<open>y\<close> added after \<open>x\<close>, generation succeeds and the
  bounds of \<open>x\<close> sit at the position of \<open>y\<close> in both arrays.
\<close>

theorem bounds_misplaced:
  "generate dc_cx = Some (Inl IndexError) \<and>
   generate dc_cxy = Some (Inr spec_cxy) \<and>
   fitting_params spec_cxy = [''x'', ''y''] \<and>
   lower_bounds spec_cxy = Some [NegInf, Fin 0] \<and>
   upper_bounds spec_cxy = Some [PosInf, Fin 1]"
  using generate_dc_cx generate_dc_cxy by (simp add: spec_cxy_def)


section \<open>Circular same-as declarations\<close>

lemma chain_trancl:
  assumes edges: "\<And>a b. declares_same_as t a b \<Longrightarrow> edge_present dg a b"
  shows "same_as_chain t (u # vs @ [v]) \<Longrightarrow>
         \<exists>i j. key_map dg u = Some i \<and> key_map dg v = Some j \<and> (i, j) \<in> (edges dg)\<^sup>+"
proof (induction vs arbitrary: u)
  case Nil
  then have "edge_present dg u v" using edges by simp
  then show ?case
    by (auto simp: edge_present_def edges_def split: option.splits)
next
  case (Cons w ws)
  then have d: "declares_same_as t u w" and c: "same_as_chain t (w # ws @ [v])" by simp_all
  from Cons.IH[OF c] obtain i' j where
    k: "key_map dg w = Some i'" "key_map dg v = Some j" "(i', j) \<in> (edges dg)\<^sup>+" by blast
  from edges[OF d] obtain i where "key_map dg u = Some i" "(i, i') \<in> edges dg"
    using k(1) by (auto simp: edge_present_def edges_def split: option.splits)
  then show ?case using k by (meson trancl_into_trancl2)
qed

lemma declared_cycle_detected:
  assumes inv: "graph_inv dg"
    and edges: "\<And>a b. declares_same_as t a b \<Longrightarrow> edge_present dg a b"
    and cyc: "declared_cycle t ns"
  shows "has_closed_cycles dg \<and> dependency_count dg > 0"
proof -
  have "2 \<le> length ns" using cyc by (simp add: declared_cycle_def)
  then obtain a b rest' where ns': "ns = a # b # rest'"
    by (cases ns; cases "tl ns") auto
  define rest where "rest = b # rest'"
  have ns: "ns = a # rest" "rest \<noteq> []" using ns' by (simp_all add: rest_def)
  then have ch: "same_as_chain t (a # rest @ [a])" using cyc by (simp add: declared_cycle_def)
  from chain_trancl[OF edges ch] obtain i where "(i, i) \<in> (edges dg)\<^sup>+" by auto
  then have h: "has_closed_cycles dg" using inv by (auto simp: has_closed_cycles_iff_trancl)
  have "declares_same_as t a b" using ch by (simp add: rest_def)
  then have "edge_present dg a b" by (rule edges)
  then have "dependency_count dg > 0" by (rule edge_present_count[OF inv])
  then show ?thesis using h by simp
qed

lemma generate_loop_single:
  "generate_step i f st = Inr st1 \<Longrightarrow> generate_loop i [f] st = Inr st1"
  by simp

lemma step_error_kind:
  assumes err: "generate_step i f st = Inl e"
    and kind: "is_fitting f \<or> is_const f \<or> is_same_as f"
    and tgt: "\<And>tgt. field_metadata f = Metadata (SameAsField tgt) \<Longrightarrow>
        tgt \<noteq> field_name f \<and> key_map (depgraph st) tgt \<noteq> None
        \<and> key_map (depgraph st) (field_name f) \<noteq> None"
  shows "e = CircularDependency"
proof (cases "field_metadata f")
  case NoMetadata
  then show ?thesis using err generate_step_plain[of f i st] by simp
next
  case InvalidMetadata
  then show ?thesis using kind by (simp add: is_fitting_def is_const_def is_same_as_def)
next
  case (Metadata v)
  show ?thesis
  proof (cases v)
    case (BoundedField mn mx)
    then show ?thesis using err Metadata generate_step_bounded[of f mn mx i st] by simp
  next
    case (ConstField c)
    then show ?thesis using err Metadata generate_step_const[of f c i st] by simp
  next
    case (SameAsField tg)
    then have m: "field_metadata f = Metadata (SameAsField tg)" using Metadata by simp
    from tgt[OF m] obtain ai bi where k: "field_name f \<noteq> tg"
      "key_map (depgraph st) (field_name f) = Some ai" "key_map (depgraph st) tg = Some bi"
      by auto
    show ?thesis
      using err unfolding generate_step_same_as[OF m] add_dependency_cases[OF k]
      by (auto split: if_splits)
  next
    case RegularField
    then show ?thesis using err Metadata generate_step_plain[of f i st] by simp
  next
    case OtherField
    then show ?thesis using kind Metadata by (simp add: is_fitting_def is_const_def is_same_as_def)
  qed
qed

lemma loop_error_kind:
  assumes "generate_loop i fs st = Inl e" "graph_inv (depgraph st)"
    and "\<forall>f \<in> set fs. (is_fitting f \<or> is_const f \<or> is_same_as f) \<and>
           field_name f \<in> set (field_names (depgraph st)) \<and>
           (\<forall>tgt. field_metadata f = Metadata (SameAsField tgt) \<longrightarrow>
              tgt \<noteq> field_name f \<and> tgt \<in> set (field_names (depgraph st)))"
  shows "e = CircularDependency"
  using assms
proof (induction fs arbitrary: i st)
  case Nil
  then show ?case by simp
next
  case (Cons f fs)
  have kind: "is_fitting f \<or> is_const f \<or> is_same_as f" using Cons.prems(3) by simp
  have tg: "tgt \<noteq> field_name f \<and> key_map (depgraph st) tgt \<noteq> None
        \<and> key_map (depgraph st) (field_name f) \<noteq> None"
    if "field_metadata f = Metadata (SameAsField tgt)" for tgt
    using that Cons.prems(3) key_map_defined[OF Cons.prems(2)] by auto
  show ?case
  proof (cases "generate_step i f st")
    case (Inl e')
    then have "e' = CircularDependency" using step_error_kind[OF Inl kind tg] by blast
    then show ?thesis using Cons.prems(1) Inl by simp
  next
    case (Inr st1)
    then have r: "generate_loop (Suc i) fs st1 = Inl e" using Cons.prems(1) by simp
    from loop_graph[OF generate_loop_single[OF Inr] Cons.prems(2)]
    have g: "graph_inv (depgraph st1)" "field_names (depgraph st1) = field_names (depgraph st)"
      by simp_all
    show ?thesis
      by (rule Cons.IH[OF r g(1)]) (use Cons.prems(3) g(2) in simp)
  qed
qed

lemma well_declared_iff:
  "well_declared t \<longleftrightarrow>
     (\<forall>f \<in> set (filter field_init t).
        (is_fitting f \<or> is_const f \<or> is_same_as f) \<and>
        (\<forall>tgt. field_metadata f = Metadata (SameAsField tgt) \<longrightarrow>
           tgt \<in> set (map field_name t) \<and> tgt \<noteq> field_name f))"
  unfolding well_declared_def list_all_iff is_fitting_def is_const_def is_same_as_def
  by (intro ball_cong refl) (auto split: metadata.splits FittingField.splits)

text \<open>
  Claim C5, amended.  For every dataclass whose same-as declarations contain a directed
  cycle of length at least 2, specification generation raises; no specification is
  returned.  When moreover every constructor field has a supported kind and every
  same-as field names a declared field other than itself, the error is
  \<open>CircularDependency\<close>.
\<close>

theorem generate_rejects_cycles:
  assumes "declared_cycle t ns"
  shows "(\<exists>e. generate t = Some (Inl e)) \<and>
         (well_declared t \<longrightarrow> generate t = Some (Inl CircularDependency))"
proof (cases "generate_loop 0 (filter field_init t) (initial_gen_state t)")
  case (Inl e)
  then have g: "generate t = Some (Inl e)" by (simp add: generate_def)
  have "e = CircularDependency" if wd: "well_declared t"
  proof (rule loop_error_kind[OF Inl initial_state_facts(1)])
    show "\<forall>f \<in> set (filter field_init t).
        (is_fitting f \<or> is_const f \<or> is_same_as f) \<and>
        field_name f \<in> set (field_names (depgraph (initial_gen_state t))) \<and>
        (\<forall>tgt. field_metadata f = Metadata (SameAsField tgt) \<longrightarrow>
           tgt \<noteq> field_name f \<and> tgt \<in> set (field_names (depgraph (initial_gen_state t))))"
      using wd unfolding well_declared_iff initial_state_facts(2) by auto
  qed
  then show ?thesis using g by simp
next
  case (Inr st)
  from loop_projections[OF Inr] have
    len: "length (default_resolvers_acc st) = length (special_fields st)"
    by (simp add: initial_state_facts)
  from loop_graph[OF Inr initial_state_facts(1)] have
    inv: "graph_inv (depgraph st)"
    and edges: "\<And>f tgt. f \<in> set (filter field_init t) \<Longrightarrow>
        field_metadata f = Metadata (SameAsField tgt) \<Longrightarrow>
        edge_present (depgraph st) (field_name f) tgt"
    by simp_all
  have e: "edge_present (depgraph st) a b" if "declares_same_as t a b" for a b
    using that edges unfolding declares_same_as_iff by blast
  from declared_cycle_detected[OF inv e assms]
  have "order_fields st = Some (Inl CircularDependency)" by (simp add: order_fields_def)
  then have "generate t = Some (Inl CircularDependency)"
    using Inr len by (simp add: generate_def)
  then show ?thesis by simp
qed

theorem generate_rejects_cycles_witness:
  "declared_cycle dc_abc [''a'', ''b'', ''c''] \<and> well_declared dc_abc \<and>
   generate dc_abc = Some (Inl CircularDependency)"
proof -
  have c: "declared_cycle dc_abc [''a'', ''b'', ''c'']"
    by (simp add: declared_cycle_def declares_same_as_def dc_abc_def same_as_field_def)
  have w: "well_declared dc_abc"
    by (simp add: well_declared_def dc_abc_def same_as_field_def)
  show ?thesis using generate_rejects_cycles[OF c] c w by blast
qed

text \<open>
  Claim C5, as stated, fails: with a field \<open>x\<close> declared the same as itself ahead of the
  two fields \<open>a\<close> and \<open>b\<close> that are declared the same as each other, generation stops at
  \<open>x\<close> with \<open>InvalidDependency\<close>.
\<close>

theorem generate_rejects_cycles_counterexample:
  "declared_cycle dc_self [''a'', ''b''] \<and> generate dc_self = Some (Inl InvalidDependency)"
proof -
  have c: "declared_cycle dc_self [''a'', ''b'']"
    by (simp add: declared_cycle_def declares_same_as_def dc_self_def same_as_field_def)
  have "generate dc_self = Some (Inl InvalidDependency)"
    by (simp add: generate_def dc_self_def same_as_field_def generate_step_def
        get_special_fitting_field_def add_dependency_def Let_def)
  then show ?thesis using c by simp
qed


section \<open>Reconstruction from an array\<close>

lemma loop_dep_map_other:
  "generate_loop i fs st = Inr st' \<Longrightarrow> n \<notin> set (map field_name fs) \<Longrightarrow>
   map_of (dep_resolver_map st') n = map_of (dep_resolver_map st) n"
proof (induction fs arbitrary: i st)
  case Nil
  then show ?case by simp
next
  case (Cons f fs)
  then obtain st1 where s1: "generate_step i f st = Inr st1" and r: "generate_loop (Suc i) fs st1 = Inr st'"
    by (auto split: sum.splits)
  have n: "n \<noteq> field_name f" "n \<notin> set (map field_name fs)" using Cons.prems(2) by auto
  have "map_of (dep_resolver_map st1) n = map_of (dep_resolver_map st) n"
  proof (cases "is_same_as f")
    case False
    then show ?thesis using step_graph_other[OF s1] by simp
  next
    case True
    then obtain tgt where m: "field_metadata f = Metadata (SameAsField tgt)"
      by (auto simp: is_same_as_def split: metadata.splits FittingField.splits)
    show ?thesis using step_graph_same_as(2)[OF s1 m] n(1) by (simp add: update_conv')
  qed
  then show ?case using Cons.IH[OF r n(2)] by simp
qed

lemma loop_dep_map_origin:
  "generate_loop i fs st = Inr st' \<Longrightarrow> map_of (dep_resolver_map st') n = Some r \<Longrightarrow>
   map_of (dep_resolver_map st) n = Some r \<or>
   (\<exists>f \<in> set fs. \<exists>tgt. field_name f = n \<and> field_metadata f = Metadata (SameAsField tgt)
       \<and> r = DependentResolver n tgt)"
proof (induction fs arbitrary: i st)
  case Nil
  then show ?case by simp
next
  case (Cons f fs)
  then obtain st1 where s1: "generate_step i f st = Inr st1" and rr: "generate_loop (Suc i) fs st1 = Inr st'"
    by (auto split: sum.splits)
  from Cons.IH[OF rr Cons.prems(2)] show ?case
  proof
    assume a: "map_of (dep_resolver_map st1) n = Some r"
    show ?thesis
    proof (cases "is_same_as f")
      case False
      then show ?thesis using step_graph_other[OF s1] a by simp
    next
      case True
      then obtain tgt where m: "field_metadata f = Metadata (SameAsField tgt)"
        by (auto simp: is_same_as_def split: metadata.splits FittingField.splits)
      show ?thesis
        using step_graph_same_as(2)[OF s1 m] a m
        by (cases "n = field_name f") (auto simp: update_conv')
    qed
  next
    assume "\<exists>f \<in> set fs. \<exists>tgt. field_name f = n \<and> field_metadata f = Metadata (SameAsField tgt)
       \<and> r = DependentResolver n tgt"
    then show ?thesis by auto
  qed
qed

lemma loop_dep_map_entry:
  "generate_loop i fs st = Inr st' \<Longrightarrow> distinct (map field_name fs) \<Longrightarrow> f \<in> set fs \<Longrightarrow>
   field_metadata f = Metadata (SameAsField tgt) \<Longrightarrow>
   map_of (dep_resolver_map st') (field_name f) = Some (DependentResolver (field_name f) tgt)"
proof (induction fs arbitrary: i st)
  case Nil
  then show ?case by simp
next
  case (Cons g fs)
  then obtain st1 where s1: "generate_step i g st = Inr st1" and r: "generate_loop (Suc i) fs st1 = Inr st'"
    by (auto split: sum.splits)
  have d: "field_name g \<notin> set (map field_name fs)" "distinct (map field_name fs)"
    using Cons.prems(2) by simp_all
  show ?case
  proof (cases "f = g")
    case True
    have "map_of (dep_resolver_map st1) (field_name f)
        = Some (DependentResolver (field_name f) tgt)"
      using step_graph_same_as(2)[OF s1] Cons.prems(4) True by (simp add: update_conv')
    then show ?thesis using loop_dep_map_other[OF r] d(1) True by simp
  next
    case False
    then have "f \<in> set fs" using Cons.prems(3) by simp
    then show ?thesis using Cons.IH[OF r d(2) _ Cons.prems(4)] by simp
  qed
qed

lemma set_get_dep_resolvers:
  "set (get_dep_resolvers m ns) = {r. \<exists>n \<in> set ns. map_of m n = Some r}"
  unfolding get_dep_resolvers_def
  by (induction ns) (auto simp: map_filter_simps split: option.splits)

lemma read_fields_ok:
  "i + length fps \<le> length array \<Longrightarrow>
   \<exists>kw. read_fields i fps array kwargs = Inr kw \<and> fst ` set kw = fst ` set kwargs \<union> set fps"
proof (induction fps arbitrary: i kwargs)
  case Nil
  then show ?case by simp
next
  case (Cons p fps)
  have i: "i < length array" "Suc i + length fps \<le> length array" using Cons.prems by simp_all
  from Cons.IH[OF i(2), of "AList.update p (array ! i) kwargs"]
  obtain kw where "read_fields (Suc i) fps array (AList.update p (array ! i) kwargs) = Inr kw"
    "fst ` set kw = fst ` set (AList.update p (array ! i) kwargs) \<union> set fps" by blast
  then show ?case using i(1) by (auto simp: dom_update)
qed

lemma resolve_dependent_fails:
  "r0 \<in> set rs \<Longrightarrow> name r0 \<notin> fst ` set kwargs \<Longrightarrow> \<forall>r \<in> set rs. target r \<noteq> name r0 \<Longrightarrow>
   \<exists>k. resolve_dependent rs kwargs = Inl (KeyError k)"
proof (induction rs arbitrary: kwargs)
  case Nil
  then show ?case by simp
next
  case (Cons r rs)
  show ?case
  proof (cases "map_of kwargs (name r)")
    case None
    then show ?thesis by (simp add: dependent_get_def dict_get_def)
  next
    case (Some v)
    then have "(name r, v) \<in> set kwargs" by (rule map_of_SomeD)
    then have "name r \<in> fst ` set kwargs" by force
    then have "r \<noteq> r0" using Cons.prems(2) by auto
    then have mem: "r0 \<in> set rs" using Cons.prems(1) by simp
    have "name r0 \<notin> fst ` set (AList.update (target r) v kwargs)"
      using Cons.prems(2,3) by (auto simp: dom_update)
    from Cons.IH[OF mem this] Cons.prems(3)
    obtain k where "resolve_dependent rs (AList.update (target r) v kwargs) = Inl (KeyError k)"
      by auto
    then show ?thesis using Some by (simp add: dependent_get_def dict_get_def)
  qed
qed

lemma declares_const_iff:
  "declares_const t c \<longleftrightarrow> (\<exists>f \<in> set (filter field_init t). field_name f = c \<and> is_const f)"
  by (auto simp: declares_const_def list_ex_iff)

text \<open>
  Claim C10, amended.  For every dataclass (with its field names distinct) whose
  generation succeeds and that has a same-as field \<open>s\<close> whose target \<open>c\<close> is a constant field:
  \<open>c\<close> is no fitting parameter and no dependent resolver writes it, so the mapping that
  \<^verbatim>\<open>array_to_instance\<close> builds never holds \<open>c\<close>; the resolver of \<open>s\<close>, which looks \<open>c\<close> up,
  is among the dependent resolvers; and on every array of the correct length
  \<^verbatim>\<open>array_to_instance\<close> raises \<^verbatim>\<open>KeyError\<close>.
\<close>

theorem array_to_instance_const_target:
  assumes dn: "distinct (map field_name t)" and gen: "generate t = Some (Inr fs)"
    and sa: "declares_same_as t s c" and co: "declares_const t c"
    and len: "length array = fitting_param_count fs"
  shows "c \<notin> set (fitting_params fs) \<and>
         (\<forall>r \<in> set (dep_resolvers fs). target r \<noteq> c) \<and>
         DependentResolver s c \<in> set (dep_resolvers fs) \<and>
         (\<exists>k. array_to_instance (pin fs t) array = Inl (KeyError k))"
proof -
  let ?fs = "filter field_init t"
  from generate_success[OF gen] obtain st where
    loop: "generate_loop 0 ?fs (initial_gen_state t) = Inr st"
    and ord: "order_fields st = Some (Inr (init_order fs, dep_resolvers fs))"
    and fit: "fitting_params fs = fitting_fields_acc st"
    and fpc: "fitting_param_count fs = length (fitting_fields_acc st)"
    by blast
  from loop_projections[OF loop] have
    sp: "special_fields st = map field_name ?fs"
    and ff: "fitting_fields_acc st = map field_name (filter is_fitting ?fs)"
    by (simp_all add: initial_state_facts)
  from loop_graph[OF loop initial_state_facts(1)] have
    inv: "graph_inv (depgraph st)"
    and nm: "field_names (depgraph st) = map field_name t"
    and edges: "\<And>f tgt. f \<in> set ?fs \<Longrightarrow> field_metadata f = Metadata (SameAsField tgt)
        \<Longrightarrow> edge_present (depgraph st) (field_name f) tgt"
    by (simp_all add: initial_state_facts(2))
  have dfs: "distinct (map field_name ?fs)" using dn by (rule distinct_map_filter)
  have inj: "f = g" if "f \<in> set ?fs" "g \<in> set ?fs" "field_name f = field_name g" for f g
    using dfs that by (meson distinct_map inj_onD)
  from sa obtain fs' where fs': "fs' \<in> set ?fs" "field_name fs' = s"
    "field_metadata fs' = Metadata (SameAsField c)"
    unfolding declares_same_as_iff by blast
  from co obtain fc where fc: "fc \<in> set ?fs" "field_name fc = c" "is_const fc"
    unfolding declares_const_iff by blast
  have c1: "c \<notin> set (fitting_params fs)"
  proof
    assume "c \<in> set (fitting_params fs)"
    then obtain g where g: "g \<in> set ?fs" "is_fitting g" "field_name g = c"
      unfolding fit ff by auto
    then have "g = fc" using inj fc(1,2) by simp
    then show False using g(2) fc(3) kinds_exclusive(1) by blast
  qed
  have ep: "edge_present (depgraph st) s c" using edges[OF fs'(1,3)] fs'(2) by simp
  have pos: "dependency_count (depgraph st) > 0" using edge_present_count[OF inv ep] .
  have sub: "set (special_fields st) \<subseteq> set (field_names (depgraph st))" unfolding sp nm by auto
  have dn': "distinct (field_names (depgraph st))" unfolding nm by (rule dn)
  from order_fields_success[OF ord inv dn' sub] pos have
    io: "set (init_order fs) = set (special_fields st)"
    and drs: "dep_resolvers fs = get_dep_resolvers (dep_resolver_map st) (init_order fs)"
    by simp_all
  have origin: "\<exists>f \<in> set ?fs. \<exists>tgt. field_name f = target r \<and>
      field_metadata f = Metadata (SameAsField tgt)"
    if "r \<in> set (dep_resolvers fs)" for r
  proof -
    from that obtain n where "map_of (dep_resolver_map st) n = Some r"
      unfolding drs set_get_dep_resolvers by blast
    from loop_dep_map_origin[OF loop this] show ?thesis
      by (auto simp: initial_state_facts)
  qed
  have c2: "\<forall>r \<in> set (dep_resolvers fs). target r \<noteq> c"
  proof
    fix r assume "r \<in> set (dep_resolvers fs)"
    from origin[OF this] obtain f tgt where f: "f \<in> set ?fs" "field_name f = target r"
      "field_metadata f = Metadata (SameAsField tgt)" by blast
    show "target r \<noteq> c"
    proof
      assume "target r = c"
      then have "f = fc" using inj[OF f(1) fc(1)] f(2) fc(2) by simp
      then show False using f(3) fc(3) by (simp add: is_const_def)
    qed
  qed
  have "map_of (dep_resolver_map st) s = Some (DependentResolver s c)"
    using loop_dep_map_entry[OF loop dfs fs'(1,3)] fs'(2) by simp
  moreover have "s \<in> set (init_order fs)" unfolding io sp using fs'(1,2) by force
  ultimately have c3: "DependentResolver s c \<in> set (dep_resolvers fs)"
    unfolding drs set_get_dep_resolvers by blast
  have c4: "\<exists>k. array_to_instance (pin fs t) array = Inl (KeyError k)"
  proof -
    have "0 + length (fitting_params fs) \<le> length array" using len fpc fit by simp
    from read_fields_ok[OF this, of "[]"] obtain kw where
      kw: "read_fields 0 (fitting_params fs) array [] = Inr kw" "fst ` set kw = set (fitting_params fs)"
      by auto
    have "name (DependentResolver s c) \<notin> fst ` set kw" using c1 kw(2) by simp
    moreover have "\<forall>r \<in> set (dep_resolvers fs). target r \<noteq> name (DependentResolver s c)"
      using c2 by simp
    ultimately obtain k where "resolve_dependent (dep_resolvers fs) kw = Inl (KeyError k)"
      using resolve_dependent_fails[OF c3] by blast
    then show ?thesis using kw(1) len by (simp add: array_to_instance_def pin_simps)
  qed
  show ?thesis using c1 c2 c3 c4 by blast
qed

text \<open>
  Claim C10, as stated, fails where it says that generation succeeds for such a
  dataclass: with two further fields declared the same as each other, generation
  raises \<open>CircularDependency\<close> although \<open>s\<close> is declared the same as the constant \<open>c\<close>.
\<close>

theorem array_to_instance_const_target_counterexample:
  "distinct (map field_name dc_const_cycle) \<and>
   declares_same_as dc_const_cycle ''s'' ''c'' \<and> declares_const dc_const_cycle ''c'' \<and>
   generate dc_const_cycle = Some (Inl CircularDependency)"
proof -
  have d: "distinct (map field_name dc_const_cycle)"
    by (simp add: dc_const_cycle_def same_as_field_def const_field_def)
  have s: "declares_same_as dc_const_cycle ''s'' ''c''"
    by (simp add: declares_same_as_def dc_const_cycle_def same_as_field_def const_field_def)
  have c: "declares_const dc_const_cycle ''c''"
    by (simp add: declares_const_def dc_const_cycle_def same_as_field_def const_field_def
        is_const_def)
  have g: "generate dc_const_cycle = Some (Inl CircularDependency)"
    by (simp add: generate_def dc_const_cycle_def same_as_field_def const_field_def
        initial_gen_state_def generate_step_def get_special_fitting_field_def
        add_dependency_def DepGraph_init_def Let_def)
  show ?thesis using d s c g by blast
qed


lemma dg_xab_eval:
  "graph dg_xab = (\<lambda>_. 0)((2, 1) := - 1)"
  "N dg_xab = 3"
  "field_names dg_xab = [''x'', ''a'', ''b'']"
  "dependency_count dg_xab = 1"
  by (simp_all add: dg_xab_def add_dependency_def DepGraph_init_def dependency_count_def
      eval_nat_numeral)

lemma add_xab:
  "add_dependency ''b'' ''a'' (DepGraph_init [''x'', ''a'', ''b'']) = (Inr True, dg_xab)"
  by (simp add: dg_xab_def add_dependency_def DepGraph_init_def)

lemma graph_inv_dg_xab: "graph_inv dg_xab"
  unfolding dg_xab_def by (rule graph_inv_add_dependency[OF graph_inv_init])

lemma dg_xab_acyclic: "\<not> (\<exists>vs. directed_cycle dg_xab vs)"
proof (rule acyclic_by_rank[where r = "\<lambda>i. if i = 1 then 0 else 1"])
  fix i j :: nat
  assume "graph dg_xab (i, j) \<noteq> 0"
  then have "(i, j) = (2, 1)" by (simp add: dg_xab_eval split: if_splits)
  then show "(if j = 1 then 0 else 1) < (if i = 1 then 0 else (1::nat))" by simp
qed

lemma dg_xab_order:
  "\<not> has_closed_cycles dg_xab" "get_init_order dg_xab = Some (Inr [''x'', ''a'', ''b''])"
proof -
  have u: "[0..<N dg_xab] = [0, 1, 2]" by (simp add: dg_xab_eval upt_rec)
  have o: "spec_init_order (graph dg_xab) [0..<N dg_xab] = Some [0, 1, 2]"
    unfolding u by (simp add: dg_xab_eval spec_init_order.simps)
  show "\<not> has_closed_cycles dg_xab"
    by (rule get_init_order_eval(1)[OF graph_inv_dg_xab dg_xab_acyclic o])
  show "get_init_order dg_xab = Some (Inr [''x'', ''a'', ''b''])"
    using get_init_order_eval(2)[OF graph_inv_dg_xab dg_xab_acyclic o] by (simp add: dg_xab_eval)
qed

lemma generate_dc_xab: "generate dc_xab = Some (Inr spec_xab)"
proof -
  have loop: "generate_loop 0 (filter field_init dc_xab) (initial_gen_state dc_xab) =
      Inr \<lparr> depgraph = dg_xab,
            field_descriptors = [(''x'', None), (''a'', Some (ConstField (Fin 7))),
                                 (''b'', Some (SameAsField ''a''))],
            set_lower_bounds = [], set_upper_bounds = [],
            default_resolvers_acc = [UnsetDefaultResolver, FixedDefaultResolver (Fin 7),
                                     Dependent (DependentResolver ''b'' ''a'')],
            special_fields = [''x'', ''a'', ''b''],
            fitting_fields_acc = [''x''],
            dep_resolver_map = [(''b'', DependentResolver ''b'' ''a'')] \<rparr>"
    by (simp add: dc_xab_def same_as_field_def const_field_def plain_field_def initial_gen_state_def
        generate_step_def get_special_fitting_field_def regular_default_def add_xab Let_def)
  show ?thesis
    unfolding generate_def loop
    by (simp add: order_fields_def dg_xab_order dg_xab_eval get_dep_resolvers_def
        List.map_filter_def process_bounds_def spec_xab_def Let_def)
qed

theorem array_to_instance_const_target_witness:
  "distinct (map field_name dc_xab) \<and> generate dc_xab = Some (Inr spec_xab) \<and>
   declares_same_as dc_xab ''b'' ''a'' \<and> declares_const dc_xab ''a'' \<and>
   length [Fin 1] = fitting_param_count spec_xab \<and>
   ''a'' \<notin> set (fitting_params spec_xab) \<and>
   DependentResolver ''b'' ''a'' \<in> set (dep_resolvers spec_xab) \<and>
   array_to_instance (pin spec_xab dc_xab) [Fin 1] = Inl (KeyError ''a'')"
proof -
  have d: "distinct (map field_name dc_xab)"
    by (simp add: dc_xab_def same_as_field_def const_field_def plain_field_def)
  have s: "declares_same_as dc_xab ''b'' ''a''"
    by (simp add: declares_same_as_def dc_xab_def same_as_field_def const_field_def plain_field_def)
  have c: "declares_const dc_xab ''a''"
    by (simp add: declares_const_def dc_xab_def same_as_field_def const_field_def plain_field_def
        is_const_def)
  have l: "length [Fin 1] = fitting_param_count spec_xab"
    by (simp add: spec_xab_def)
  note t = array_to_instance_const_target[OF d generate_dc_xab s c l]
  from t obtain k where "array_to_instance (pin spec_xab dc_xab) [Fin 1] = Inl (KeyError k)"
    by blast
  moreover have "array_to_instance (pin spec_xab dc_xab) [Fin 1] = Inl (KeyError ''a'')"
    by (simp add: array_to_instance_def pin_simps spec_xab_def dependent_get_def dict_get_def)
  ultimately show ?thesis using t d s c l generate_dc_xab by blast
qed

text \<open>
  Claim C4, evaluated where the code departs from it: for the dataclass with a fitting
  field \<open>x\<close>, a constant \<open>a = 7\<close> and a field \<open>b\<close> declared the same as \<open>a\<close>, generation
  succeeds and the default instance is built (\<^verbatim>\<open>create_default_fit_instance\<close> resolves
  \<open>b\<close> from \<open>a\<close>); \<^verbatim>\<open>instance_to_array\<close> writes \<open>x\<close> into the array of length 1; but
  \<^verbatim>\<open>array_to_instance\<close> on that array raises \<^verbatim>\<open>KeyError\<close>, because the value of \<open>a\<close> is
  not in the mapping when the resolver of \<open>b\<close> looks it up.
\<close>

theorem roundtrip_fails_on_const_target:
  "generate dc_xab = Some (Inr spec_xab) \<and>
   (\<exists>inst. create_default_fit_instance (pin spec_xab dc_xab) = Inr inst \<and>
           inst ''x'' = Some (Fin 0) \<and> inst ''a'' = Some (Fin 7) \<and> inst ''b'' = Some (Fin 7)) \<and>
   instance_to_array (pin spec_xab dc_xab) inst_xab [Fin 0] = Inr [Fin 1] \<and>
   array_to_instance (pin spec_xab dc_xab) [Fin 1] = Inl (KeyError ''a'')"
proof -
  have d: "\<exists>inst. create_default_fit_instance (pin spec_xab dc_xab) = Inr inst \<and>
           inst ''x'' = Some (Fin 0) \<and> inst ''a'' = Some (Fin 7) \<and> inst ''b'' = Some (Fin 7)"
    by (simp add: create_default_fit_instance_def pin_simps spec_xab_def dependent_get_def
        dict_get_def dataclass_init_def dc_xab_def same_as_field_def const_field_def plain_field_def)
  have w: "instance_to_array (pin spec_xab dc_xab) inst_xab [Fin 0] = Inr [Fin 1]"
    by (simp add: instance_to_array_def pin_simps spec_xab_def inst_xab_def)
  have r: "array_to_instance (pin spec_xab dc_xab) [Fin 1] = Inl (KeyError ''a'')"
    by (simp add: array_to_instance_def pin_simps spec_xab_def dependent_get_def dict_get_def)
  show ?thesis using generate_dc_xab d w r by blast
qed


end
